theory Spec2Isabelle
  imports Main "HOL-Library.Multiset" "HOL-Library.Log_Nat"
begin

section \<open>The recency list\<close>

text \<open>
  Modelled from the spec: the package \<^verbatim>\<open>github.com/electricbubble/lru/list\<close> (the
  generic doubly linked list the engine imports) is described in section 4.1 as an
  ordered container with push-to-front, move-an-existing-node-to-front, remove-a-node,
  access to the back (oldest) node, length and re-initialisation. A list value is the
  sequence of its nodes from front (newest) to back (oldest). A node is named by its
  payload, the entry \<open>(key, value)\<close>; removing or moving a node removes its first
  occurrence, and in an engine whose keys are distinct that occurrence is the only one.
\<close>

definition list_PushFront :: "'a \<Rightarrow> 'a list \<Rightarrow> 'a list" where
  "list_PushFront v l = v # l"

definition list_Remove :: "'a \<Rightarrow> 'a list \<Rightarrow> 'a list" where
  "list_Remove e l = remove1 e l"

definition list_MoveToFront :: "'a \<Rightarrow> 'a list \<Rightarrow> 'a list" where
  "list_MoveToFront e l = (if e \<in> set l then e # remove1 e l else l)"

definition list_Back :: "'a list \<Rightarrow> 'a option" where
  "list_Back l = (if l = [] then None else Some (last l))"

definition list_Len :: "'a list \<Rightarrow> int" where
  "list_Len l = int (length l)"

definition list_Init :: "'a list \<Rightarrow> 'a list" where
  "list_Init l = []"

section \<open>Machine integers\<close>

text \<open>
  Go's \<^verbatim>\<open>int\<close> is a 64-bit two's-complement integer on the platforms the
  benchmark comment names (\<^verbatim>\<open>amd64\<close>), and its arithmetic wraps around silently.
  Lengths of lists are bounded by memory and far below \<open>2^63\<close>; the one place where a
  caller-supplied integer enters an arithmetic operation is the subtraction in
  \<^verbatim>\<open>Resize\<close>, which is therefore written with the wrap-around.
\<close>

definition int64_min :: int where
  "int64_min = - (2 ^ 63)"

definition int64_max :: int where
  "int64_max = 2 ^ 63 - 1"

definition is_int64 :: "int \<Rightarrow> bool" where
  "is_int64 x = (int64_min \<le> x \<and> x \<le> int64_max)"

definition wrap64 :: "int \<Rightarrow> int" where
  "wrap64 x = (x + 2 ^ 63) mod 2 ^ 64 - 2 ^ 63"

section \<open>The base engine \<^verbatim>\<open>unsafeCache\<close>\<close>

text \<open>
  The struct of \<^verbatim>\<open>arc.go\<close> (second part). The callback field holds a function
  or nil; the model keeps whether it is set and records every invocation as the pair
  \<open>(key, value)\<close> it is applied to, in the trace that each mutating operation returns.
  The index \<^verbatim>\<open>bucket\<close> maps a key to its node in \<^verbatim>\<open>entries\<close>; both
  are updated together by every operation of the source, so the model keeps the nodes
  once, in \<open>entries\<close>, and reads the index off them.
\<close>

record ('k, 'v) unsafeCache =
  maxEntries :: int
  onEvicted :: bool
  async :: bool
  entries :: "('k \<times> 'v) list"

datatype Option = WithOnEvicted | WithOnEvictedAsync | NilOption

definition defaultSize :: int where
  "defaultSize = 128"

fun apply_Option :: "Option \<Rightarrow> ('k, 'v) unsafeCache \<Rightarrow> ('k, 'v) unsafeCache" where
  "apply_Option WithOnEvicted c = c\<lparr>onEvicted := True, async := False\<rparr>"
| "apply_Option WithOnEvictedAsync c = c\<lparr>onEvicted := True, async := True\<rparr>"
| "apply_Option NilOption c = c"

definition NewUnsafeLru :: "int \<Rightarrow> Option list \<Rightarrow> ('k, 'v) unsafeCache" where
  "NewUnsafeLru n opts =
     (let n' = (if n \<le> 0 then defaultSize else n);
          c = \<lparr>maxEntries = n', onEvicted = False, async = False, entries = []\<rparr>
      in fold apply_Option opts c)"

definition bucket :: "('k, 'v) unsafeCache \<Rightarrow> 'k \<Rightarrow> ('k \<times> 'v) option" where
  "bucket c key = List.find (\<lambda>e. fst e = key) (entries c)"

text \<open>
  \<^verbatim>\<open>evicting\<close> applies the callback inline, or starts a goroutine that applies
  it; either way the callback is invoked once with the pair.
\<close>

definition evicting :: "('k, 'v) unsafeCache \<Rightarrow> 'k \<Rightarrow> 'v \<Rightarrow> ('k \<times> 'v) list" where
  "evicting c key val = (if async c then [(key, val)] else [(key, val)])"

definition removeElement ::
  "('k, 'v) unsafeCache \<Rightarrow> ('k \<times> 'v) \<Rightarrow> ('k, 'v) unsafeCache \<times> ('k \<times> 'v) list" where
  "removeElement c elem =
     (let c' = c\<lparr>entries := list_Remove elem (entries c)\<rparr>
      in if \<not> onEvicted c then (c', [])
         else (c', evicting c (fst elem) (snd elem)))"

definition removeOldest ::
  "('k, 'v) unsafeCache \<Rightarrow> ('k, 'v) unsafeCache \<times> ('k \<times> 'v) list" where
  "removeOldest c =
     (case list_Back (entries c) of
        None \<Rightarrow> (c, [])
      | Some ent \<Rightarrow> removeElement c ent)"

definition Len :: "('k, 'v) unsafeCache \<Rightarrow> int" where
  "Len c = list_Len (entries c)"

definition Add ::
  "('k, 'v) unsafeCache \<Rightarrow> 'k \<Rightarrow> 'v \<Rightarrow> bool \<times> ('k, 'v) unsafeCache \<times> ('k \<times> 'v) list" where
  "Add c key val =
     (case bucket c key of
        Some elem \<Rightarrow>
          (case list_MoveToFront elem (entries c) of
             e # es \<Rightarrow> (False, c\<lparr>entries := (fst e, val) # es\<rparr>, [])
           | [] \<Rightarrow> (False, c, []))
      | None \<Rightarrow>
          (let c1 = c\<lparr>entries := list_PushFront (key, val) (entries c)\<rparr>;
               evicted = (list_Len (entries c1) > maxEntries c1)
           in if evicted
              then (let (c2, calls) = removeOldest c1 in (evicted, c2, calls))
              else (evicted, c1, [])))"

text \<open>
  A lookup returns \<open>Some v\<close> for \<^verbatim>\<open>(v, true)\<close> and \<open>None\<close> for the zero value with
  \<^verbatim>\<open>false\<close>. \<^verbatim>\<open>Get\<close> tests the node's entry pointer for nil after moving the node;
  every node is made by \<^verbatim>\<open>Add\<close> with an entry, so the test never succeeds.
\<close>

definition Get ::
  "('k, 'v) unsafeCache \<Rightarrow> 'k \<Rightarrow> 'v option \<times> ('k, 'v) unsafeCache" where
  "Get c key =
     (case bucket c key of
        None \<Rightarrow> (None, c)
      | Some elem \<Rightarrow> (Some (snd elem), c\<lparr>entries := list_MoveToFront elem (entries c)\<rparr>))"

definition Contains :: "('k, 'v) unsafeCache \<Rightarrow> 'k \<Rightarrow> bool" where
  "Contains c key = (case bucket c key of None \<Rightarrow> False | Some elem \<Rightarrow> True)"

definition Peek :: "('k, 'v) unsafeCache \<Rightarrow> 'k \<Rightarrow> 'v option" where
  "Peek c key = (case bucket c key of None \<Rightarrow> None | Some elem \<Rightarrow> Some (snd elem))"

definition Remove ::
  "('k, 'v) unsafeCache \<Rightarrow> 'k \<Rightarrow> bool \<times> ('k, 'v) unsafeCache \<times> ('k \<times> 'v) list" where
  "Remove c key =
     (case bucket c key of
        None \<Rightarrow> (False, c, [])
      | Some elem \<Rightarrow> (let (c', calls) = removeElement c elem in (True, c', calls)))"

definition RemoveOldest ::
  "('k, 'v) unsafeCache \<Rightarrow> ('k \<times> 'v) option \<times> ('k, 'v) unsafeCache \<times> ('k \<times> 'v) list" where
  "RemoveOldest c =
     (case list_Back (entries c) of
        None \<Rightarrow> (None, c, [])
      | Some elem \<Rightarrow> (let (c', calls) = removeElement c elem in (Some elem, c', calls)))"

definition GetOldest :: "('k, 'v) unsafeCache \<Rightarrow> ('k \<times> 'v) option" where
  "GetOldest c = list_Back (entries c)"

definition Keys :: "('k, 'v) unsafeCache \<Rightarrow> 'k list" where
  "Keys c = rev (map fst (entries c))"

text \<open>The loop of \<^verbatim>\<open>Resize\<close>: \<open>n\<close> calls of \<^verbatim>\<open>removeOldest\<close>.\<close>

fun Resize_loop ::
  "nat \<Rightarrow> ('k, 'v) unsafeCache \<Rightarrow> ('k, 'v) unsafeCache \<times> ('k \<times> 'v) list" where
  "Resize_loop 0 c = (c, [])"
| "Resize_loop (Suc n) c =
     (let (c1, calls1) = removeOldest c;
          (c2, calls2) = Resize_loop n c1
      in (c2, calls1 @ calls2))"

definition Resize ::
  "('k, 'v) unsafeCache \<Rightarrow> int \<Rightarrow> int \<times> ('k, 'v) unsafeCache \<times> ('k \<times> 'v) list" where
  "Resize c sz =
     (let diff = wrap64 (Len c - sz);
          diff = (if diff < 0 then 0 else diff);
          (c', calls) = Resize_loop (nat diff) c
      in (diff, c'\<lparr>maxEntries := sz\<rparr>, calls))"

text \<open>
  \<^verbatim>\<open>Clear\<close> ranges over the index, whose iteration order Go leaves unspecified;
  the model visits the nodes in list order, and the theorems about the trace of
  \<open>Clear\<close> speak of it as a multiset.
\<close>

definition Clear ::
  "('k, 'v) unsafeCache \<Rightarrow> ('k, 'v) unsafeCache \<times> ('k \<times> 'v) list" where
  "Clear c =
     (let calls = concat (map (\<lambda>elem. if onEvicted c then evicting c (fst elem) (snd elem) else [])
                              (entries c))
      in (c\<lparr>entries := list_Init (entries c)\<rparr>, calls))"

text \<open>The well-formedness of an engine: every key has one node.\<close>

definition wf_cache :: "('k, 'v) unsafeCache \<Rightarrow> bool" where
  "wf_cache c = distinct (map fst (entries c))"

section \<open>Sequences of \<^verbatim>\<open>Add\<close> and \<^verbatim>\<open>Get\<close>\<close>

text \<open>
  A caller's sequence of operations on one engine. \<open>step\<close> performs one operation and
  reports the key it accessed (the key of an \<open>Add\<close>, the key of a \<open>Get\<close> that hit,
  nothing for a \<open>Get\<close> that missed) and whether the operation evicted an entry;
  \<open>run_ops\<close> performs a sequence from left to right and returns the final engine, the
  accessed keys in the order of access, and whether any operation evicted.
\<close>

datatype ('k, 'v) lru_op = OpAdd 'k 'v | OpGet 'k

fun step ::
  "('k, 'v) unsafeCache \<Rightarrow> ('k, 'v) lru_op \<Rightarrow> ('k, 'v) unsafeCache \<times> 'k list \<times> bool" where
  "step c (OpAdd k v) = (case Add c k v of (evicted, c', calls) \<Rightarrow> (c', [k], evicted))"
| "step c (OpGet k) =
     (case Get c k of (None, c') \<Rightarrow> (c', [], False) | (Some v, c') \<Rightarrow> (c', [k], False))"

fun run_ops ::
  "('k, 'v) unsafeCache \<Rightarrow> ('k, 'v) lru_op list \<Rightarrow> ('k, 'v) unsafeCache \<times> 'k list \<times> bool" where
  "run_ops c [] = (c, [], False)"
| "run_ops c (x # xs) =
     (case step c x of (c1, h1, e1) \<Rightarrow>
        (case run_ops c1 xs of (c2, h2, e2) \<Rightarrow> (c2, h1 @ h2, e1 \<or> e2)))"

text \<open>
  The \<open>n\<close> most recently accessed keys of an access history, oldest first: the history
  with every key kept at its last access only, cut to its last \<open>n\<close> keys.
\<close>

definition most_recent :: "nat \<Rightarrow> 'k list \<Rightarrow> 'k list" where
  "most_recent n h = drop (length (remdups h) - n) (remdups h)"

text \<open>
  The accesses of a sequence of operations, told without the engine: an \<open>Add\<close> accesses
  its key; a \<open>Get\<close> accesses its key when that key is among the \<open>n\<close> most recently
  accessed ones, and is a miss that accesses nothing otherwise. \<open>h\<close> holds the accesses
  made before the sequence.
\<close>

fun accesses :: "nat \<Rightarrow> ('k, 'v) lru_op list \<Rightarrow> 'k list \<Rightarrow> 'k list" where
  "accesses n [] h = h"
| "accesses n (OpAdd k v # xs) h = accesses n xs (h @ [k])"
| "accesses n (OpGet k # xs) h =
     accesses n xs (if k \<in> set (most_recent n h) then h @ [k] else h)"

text \<open>
  The invariant of an engine that has served the accesses \<open>h\<close> (oldest first): it is
  well formed, its capacity is at least 1, and its nodes carry, newest first, the most
  recently accessed keys, as many as the capacity allows.
\<close>

definition lru_inv :: "('k, 'v) unsafeCache \<Rightarrow> 'k list \<Rightarrow> bool" where
  "lru_inv c h = (wf_cache c \<and> 1 \<le> maxEntries c \<and>
       map fst (entries c) = take (nat (maxEntries c)) (rev (remdups h)))"

section \<open>The concurrency wrapper \<^verbatim>\<open>Cache\<close>\<close>

text \<open>
  \<^verbatim>\<open>Cache\<close> holds one base engine and a lock; every method takes the lock and calls
  the engine's method of the same name. Run one call at a time, as the lock makes
  them run, the wrapper is the engine.
\<close>

record ('k, 'v) Cache =
  lru :: "('k, 'v) unsafeCache"

definition New :: "int \<Rightarrow> Option list \<Rightarrow> ('k, 'v) Cache" where
  "New n opts = \<lparr>lru = NewUnsafeLru n opts\<rparr>"

definition Cache_Add ::
  "('k, 'v) Cache \<Rightarrow> 'k \<Rightarrow> 'v \<Rightarrow> bool \<times> ('k, 'v) Cache \<times> ('k \<times> 'v) list" where
  "Cache_Add c key val = (case Add (lru c) key val of (evicted, l, calls) \<Rightarrow> (evicted, c\<lparr>lru := l\<rparr>, calls))"

definition Cache_Contains :: "('k, 'v) Cache \<Rightarrow> 'k \<Rightarrow> bool" where
  "Cache_Contains c key = Contains (lru c) key"

definition Cache_Len :: "('k, 'v) Cache \<Rightarrow> int" where
  "Cache_Len c = Len (lru c)"

definition Cache_Clear :: "('k, 'v) Cache \<Rightarrow> ('k, 'v) Cache \<times> ('k \<times> 'v) list" where
  "Cache_Clear c = (case Clear (lru c) of (l, calls) \<Rightarrow> (c\<lparr>lru := l\<rparr>, calls))"

section \<open>Floating point in the two-queue constructor\<close>

text \<open>
  \<^verbatim>\<open>New2QParams\<close> computes \<^verbatim>\<open>int(float64(maxEntries) * recentRatio)\<close>. A finite
  \<^verbatim>\<open>float64\<close> is a rational number, and an operation returns the exact result rounded to
  the nearest number with a 53-bit significand, ties to the even significand. \<open>f64_round\<close>
  is that rounding, with the fixed spacing \<open>2^-1074\<close> of the subnormal range; the results
  used here stay far below the largest finite value. Not-a-number and the infinities are
  outside the type. The conversion to \<^verbatim>\<open>int\<close> cuts off the fraction; Go leaves its
  result to the implementation when the value does not fit the integer type, and the
  model returns \<open>None\<close> there.
\<close>

definition pow2 :: "int \<Rightarrow> rat" where
  "pow2 e = (if 0 \<le> e then 2 ^ nat e else 1 / 2 ^ nat (- e))"

definition floor_log2 :: "rat \<Rightarrow> int" where
  "floor_log2 x =
     (case quotient_of x of (a, b) \<Rightarrow>
        (let e = bitlen a - bitlen b in if x < pow2 e then e - 1 else e))"

definition round_half_even :: "rat \<Rightarrow> int" where
  "round_half_even n =
     (let f = \<lfloor>n\<rfloor>; r = n - of_int f
      in if r < 1 / 2 then f else if 1 / 2 < r then f + 1 else if even f then f else f + 1)"

definition f64_round :: "rat \<Rightarrow> rat" where
  "f64_round x =
     (if x = 0 then 0
      else (let e = max (floor_log2 \<bar>x\<bar>) (- 1022);
                q = pow2 (e - 52)
            in sgn x * of_int (round_half_even (\<bar>x\<bar> / q)) * q))"

definition f64_of_int :: "int \<Rightarrow> rat" where
  "f64_of_int n = f64_round (of_int n)"

definition f64_mul :: "rat \<Rightarrow> rat \<Rightarrow> rat" where
  "f64_mul x y = f64_round (x * y)"

definition f64_to_int :: "rat \<Rightarrow> int option" where
  "f64_to_int x =
     (let t = (if 0 \<le> x then \<lfloor>x\<rfloor> else \<lceil>x\<rceil>)
      in if is_int64 t then Some t else None)"

section \<open>The two-queue cache\<close>

text \<open>
  The ghost engine stores keys with the zero value of the value type (\<^verbatim>\<open>var v V\<close>),
  written \<open>0\<close>. \<^verbatim>\<open>ensureSpace\<close> ignores the flag of \<^verbatim>\<open>RemoveOldest\<close>; were the
  list empty the key would be the zero value of the key type. \<^verbatim>\<open>Remove\<close> returns its
  named result \<^verbatim>\<open>ok\<close>, which no branch assigns: the result is always false.
\<close>

record ('k, 'v) TwoQueueCache =
  maxEntries :: int
  recentEntries :: int
  recent :: "('k, 'v) unsafeCache"
  frequent :: "('k, 'v) unsafeCache"
  recentEvict :: "('k, 'v) unsafeCache"

definition default2QRecentRatio :: rat where
  "default2QRecentRatio = 1 / 4"

definition default2QGhostEntries :: rat where
  "default2QGhostEntries = 1 / 2"

definition New2QParams ::
  "int \<Rightarrow> rat \<Rightarrow> rat \<Rightarrow> Option list \<Rightarrow> ('k, 'v) TwoQueueCache option" where
  "New2QParams n recentRatio ghostRatio opts =
     (let n' = (if n \<le> 0 then defaultSize else n);
          recentRatio' = (if recentRatio < 0 \<or> recentRatio > 1 then default2QRecentRatio else recentRatio);
          ghostRatio' = (if ghostRatio < 0 \<or> ghostRatio > 1 then default2QGhostEntries else ghostRatio)
      in case f64_to_int (f64_mul (f64_of_int n') recentRatio') of
           None \<Rightarrow> None
         | Some recentEntries' \<Rightarrow>
             (case f64_to_int (f64_mul (f64_of_int n') ghostRatio') of
                None \<Rightarrow> None
              | Some evictEntries \<Rightarrow>
                  Some \<lparr>maxEntries = n',
                        recentEntries = recentEntries',
                        recent = NewUnsafeLru n' opts,
                        frequent = NewUnsafeLru n' opts,
                        recentEvict = NewUnsafeLru evictEntries opts\<rparr>))"

definition New2Q :: "int \<Rightarrow> Option list \<Rightarrow> ('k, 'v) TwoQueueCache option" where
  "New2Q n opts = New2QParams n default2QRecentRatio default2QGhostEntries opts"

definition TwoQ_ensureSpace ::
  "('k::zero, 'v::zero) TwoQueueCache \<Rightarrow> bool \<Rightarrow> ('k, 'v) TwoQueueCache \<times> ('k \<times> 'v) list" where
  "TwoQ_ensureSpace c recentEvictFlag =
     (let recentLen = Len (recent c);
          freqLen = Len (frequent c)
      in if recentLen + freqLen < maxEntries c then (c, [])
         else if recentLen > 0 \<and>
                 (recentLen > recentEntries c \<or> (recentLen = recentEntries c \<and> \<not> recentEvictFlag))
         then (case RemoveOldest (recent c) of (r, rc, calls1) \<Rightarrow>
                 (let k = (case r of None \<Rightarrow> 0 | Some ent \<Rightarrow> fst ent)
                  in case Add (recentEvict c) k 0 of (ev, g, calls2) \<Rightarrow>
                       (c\<lparr>recent := rc, recentEvict := g\<rparr>, calls1 @ calls2)))
         else (case RemoveOldest (frequent c) of (r, f, calls) \<Rightarrow> (c\<lparr>frequent := f\<rparr>, calls)))"

definition TwoQ_Add ::
  "('k::zero, 'v::zero) TwoQueueCache \<Rightarrow> 'k \<Rightarrow> 'v \<Rightarrow> ('k, 'v) TwoQueueCache \<times> ('k \<times> 'v) list" where
  "TwoQ_Add c key val =
     (if Contains (frequent c) key
      then (case Add (frequent c) key val of (ev, f, calls) \<Rightarrow> (c\<lparr>frequent := f\<rparr>, calls))
      else if Contains (recent c) key
      then (case Remove (recent c) key of (ok, r, calls1) \<Rightarrow>
              (case Add (frequent c) key val of (ev, f, calls2) \<Rightarrow>
                 (c\<lparr>recent := r, frequent := f\<rparr>, calls1 @ calls2)))
      else if Contains (recentEvict c) key
      then (case TwoQ_ensureSpace c True of (c1, calls1) \<Rightarrow>
              (case Remove (recentEvict c1) key of (ok, g, calls2) \<Rightarrow>
                 (case Add (frequent c1) key val of (ev, f, calls3) \<Rightarrow>
                    (c1\<lparr>recentEvict := g, frequent := f\<rparr>, calls1 @ calls2 @ calls3))))
      else (case TwoQ_ensureSpace c False of (c1, calls1) \<Rightarrow>
              (case Add (recent c1) key val of (ev, r, calls2) \<Rightarrow>
                 (c1\<lparr>recent := r\<rparr>, calls1 @ calls2))))"

definition TwoQ_Get ::
  "('k, 'v) TwoQueueCache \<Rightarrow> 'k \<Rightarrow> 'v option \<times> ('k, 'v) TwoQueueCache \<times> ('k \<times> 'v) list" where
  "TwoQ_Get c key =
     (case Get (frequent c) key of
        (Some v, f) \<Rightarrow> (Some v, c\<lparr>frequent := f\<rparr>, [])
      | (None, f) \<Rightarrow>
          (case Peek (recent c) key of
             Some v \<Rightarrow>
               (case Remove (recent c) key of (ok, r, calls1) \<Rightarrow>
                  (case Add f key v of (ev, f', calls2) \<Rightarrow>
                     (Some v, c\<lparr>recent := r, frequent := f'\<rparr>, calls1 @ calls2)))
           | None \<Rightarrow> (None, c\<lparr>frequent := f\<rparr>, [])))"

definition TwoQ_Contains :: "('k, 'v) TwoQueueCache \<Rightarrow> 'k \<Rightarrow> bool" where
  "TwoQ_Contains c key = (Contains (frequent c) key \<or> Contains (recent c) key)"

definition TwoQ_Peek :: "('k, 'v) TwoQueueCache \<Rightarrow> 'k \<Rightarrow> 'v option" where
  "TwoQ_Peek c key = (case Peek (frequent c) key of Some v \<Rightarrow> Some v | None \<Rightarrow> Peek (recent c) key)"

definition TwoQ_Remove ::
  "('k, 'v) TwoQueueCache \<Rightarrow> 'k \<Rightarrow> bool \<times> ('k, 'v) TwoQueueCache \<times> ('k \<times> 'v) list" where
  "TwoQ_Remove c key =
     (let ok = False
      in case Remove (frequent c) key of
           (True, f, calls) \<Rightarrow> (ok, c\<lparr>frequent := f\<rparr>, calls)
         | (False, f, calls) \<Rightarrow>
             (case Remove (recent c) key of
                (True, r, calls2) \<Rightarrow> (ok, c\<lparr>recent := r\<rparr>, calls2)
              | (False, r, calls2) \<Rightarrow>
                  (case Remove (recentEvict c) key of
                     (found, g, calls3) \<Rightarrow> (ok, c\<lparr>recentEvict := g\<rparr>, calls3))))"

definition TwoQ_Keys :: "('k, 'v) TwoQueueCache \<Rightarrow> 'k list" where
  "TwoQ_Keys c = Keys (frequent c) @ Keys (recent c)"

definition TwoQ_Len :: "('k, 'v) TwoQueueCache \<Rightarrow> int" where
  "TwoQ_Len c = Len (recent c) + Len (frequent c)"

definition TwoQ_Clear :: "('k, 'v) TwoQueueCache \<Rightarrow> ('k, 'v) TwoQueueCache \<times> ('k \<times> 'v) list" where
  "TwoQ_Clear c =
     (case Clear (recent c) of (r, calls1) \<Rightarrow>
        (case Clear (frequent c) of (f, calls2) \<Rightarrow>
           (case Clear (recentEvict c) of (g, calls3) \<Rightarrow>
              (c\<lparr>recent := r, frequent := f, recentEvict := g\<rparr>, calls1 @ calls2 @ calls3))))"

section \<open>The adaptive replacement cache\<close>

text \<open>
  The integer quotients of \<^verbatim>\<open>Add\<close> divide by the length of a list that contains the
  key, so the divisor is at least 1 and the division of Go (which panics on zero and
  truncates) is the division of non-negative integers. Lengths and \<open>p\<close> are bounded by
  the number of entries held, so their sums stay far below \<open>2^63\<close>. \<^verbatim>\<open>Remove\<close>
  returns its named result \<^verbatim>\<open>ok\<close>, which no branch assigns: the result is always false.
\<close>

record ('k, 'v) ARCCache =
  maxEntries :: int
  p :: int
  t1 :: "('k, 'v) unsafeCache"
  b1 :: "('k, 'v) unsafeCache"
  t2 :: "('k, 'v) unsafeCache"
  b2 :: "('k, 'v) unsafeCache"

definition NewARC :: "int \<Rightarrow> Option list \<Rightarrow> ('k, 'v) ARCCache" where
  "NewARC n opts =
     (let n' = (if n \<le> 0 then defaultSize else n)
      in \<lparr>maxEntries = n',
          p = 0,
          t1 = NewUnsafeLru n' opts,
          b1 = NewUnsafeLru n' opts,
          t2 = NewUnsafeLru n' opts,
          b2 = NewUnsafeLru n' opts\<rparr>)"

definition ARC_replace ::
  "('k, 'v::zero) ARCCache \<Rightarrow> bool \<Rightarrow> ('k, 'v) ARCCache \<times> ('k \<times> 'v) list" where
  "ARC_replace c b2ContainsKey =
     (let t1Len = Len (t1 c)
      in if t1Len > 0 \<and> (t1Len > p c \<or> (t1Len = p c \<and> b2ContainsKey))
         then (case RemoveOldest (t1 c) of
                 (Some ent, t, calls1) \<Rightarrow>
                   (case Add (b1 c) (fst ent) 0 of (ev, b, calls2) \<Rightarrow>
                      (c\<lparr>t1 := t, b1 := b\<rparr>, calls1 @ calls2))
               | (None, t, calls1) \<Rightarrow> (c\<lparr>t1 := t\<rparr>, calls1))
         else (case RemoveOldest (t2 c) of
                 (Some ent, t, calls1) \<Rightarrow>
                   (case Add (b2 c) (fst ent) 0 of (ev, b, calls2) \<Rightarrow>
                      (c\<lparr>t2 := t, b2 := b\<rparr>, calls1 @ calls2))
               | (None, t, calls1) \<Rightarrow> (c\<lparr>t2 := t\<rparr>, calls1)))"

definition ARC_Add ::
  "('k, 'v::zero) ARCCache \<Rightarrow> 'k \<Rightarrow> 'v \<Rightarrow> ('k, 'v) ARCCache \<times> ('k \<times> 'v) list" where
  "ARC_Add c key val =
     (if Contains (t1 c) key
      then (case Remove (t1 c) key of (ok, t, calls1) \<Rightarrow>
              (case Add (t2 c) key val of (ev, t', calls2) \<Rightarrow>
                 (c\<lparr>t1 := t, t2 := t'\<rparr>, calls1 @ calls2)))
      else if Contains (t2 c) key
      then (case Add (t2 c) key val of (ev, t', calls) \<Rightarrow> (c\<lparr>t2 := t'\<rparr>, calls))
      else if Contains (b1 c) key
      then (let b1Len = Len (b1 c);
                b2Len = Len (b2 c);
                delta = (if b2Len > b1Len then b2Len div b1Len else 1);
                c1 = (if p c + delta \<ge> maxEntries c then c\<lparr>p := maxEntries c\<rparr>
                      else c\<lparr>p := p c + delta\<rparr>);
                (c2, calls1) = (if Len (t1 c1) + Len (t2 c1) \<ge> maxEntries c1
                                then ARC_replace c1 False else (c1, []))
            in case Remove (b1 c2) key of (ok, b, calls2) \<Rightarrow>
                 (case Add (t2 c2) key val of (ev, t', calls3) \<Rightarrow>
                    (c2\<lparr>b1 := b, t2 := t'\<rparr>, calls1 @ calls2 @ calls3)))
      else if Contains (b2 c) key
      then (let b1Len = Len (b1 c);
                b2Len = Len (b2 c);
                delta = (if b1Len > b2Len then b1Len div b2Len else 1);
                c1 = (if delta \<ge> p c then c\<lparr>p := 0\<rparr> else c\<lparr>p := p c - delta\<rparr>);
                (c2, calls1) = (if Len (t1 c1) + Len (t2 c1) \<ge> maxEntries c1
                                then ARC_replace c1 True else (c1, []))
            in case Remove (b2 c2) key of (ok, b, calls2) \<Rightarrow>
                 (case Add (t2 c2) key val of (ev, t', calls3) \<Rightarrow>
                    (c2\<lparr>b2 := b, t2 := t'\<rparr>, calls1 @ calls2 @ calls3)))
      else (let (c1, calls1) = (if Len (t1 c) + Len (t2 c) \<ge> maxEntries c
                                then ARC_replace c False else (c, []));
                (c2, calls2) = (if Len (b1 c1) > maxEntries c1 - p c1
                                then (case RemoveOldest (b1 c1) of (r, b, calls) \<Rightarrow> (c1\<lparr>b1 := b\<rparr>, calls))
                                else (c1, []));
                (c3, calls3) = (if Len (b2 c2) > p c2
                                then (case RemoveOldest (b2 c2) of (r, b, calls) \<Rightarrow> (c2\<lparr>b2 := b\<rparr>, calls))
                                else (c2, []))
            in case Add (t1 c3) key val of (ev, t, calls4) \<Rightarrow>
                 (c3\<lparr>t1 := t\<rparr>, calls1 @ calls2 @ calls3 @ calls4)))"

definition ARC_Get ::
  "('k, 'v) ARCCache \<Rightarrow> 'k \<Rightarrow> 'v option \<times> ('k, 'v) ARCCache \<times> ('k \<times> 'v) list" where
  "ARC_Get c key =
     (case Peek (t1 c) key of
        Some v \<Rightarrow>
          (case Remove (t1 c) key of (ok, t, calls1) \<Rightarrow>
             (case Add (t2 c) key v of (ev, t', calls2) \<Rightarrow>
                (Some v, c\<lparr>t1 := t, t2 := t'\<rparr>, calls1 @ calls2)))
      | None \<Rightarrow>
          (case Get (t2 c) key of
             (Some v, t') \<Rightarrow> (Some v, c\<lparr>t2 := t'\<rparr>, [])
           | (None, t') \<Rightarrow> (None, c\<lparr>t2 := t'\<rparr>, [])))"

definition ARC_Contains :: "('k, 'v) ARCCache \<Rightarrow> 'k \<Rightarrow> bool" where
  "ARC_Contains c key = (Contains (t1 c) key \<or> Contains (t2 c) key)"

definition ARC_Peek :: "('k, 'v) ARCCache \<Rightarrow> 'k \<Rightarrow> 'v option" where
  "ARC_Peek c key = (case Peek (t1 c) key of Some v \<Rightarrow> Some v | None \<Rightarrow> Peek (t2 c) key)"

definition ARC_Remove ::
  "('k, 'v) ARCCache \<Rightarrow> 'k \<Rightarrow> bool \<times> ('k, 'v) ARCCache \<times> ('k \<times> 'v) list" where
  "ARC_Remove c key =
     (let ok = False
      in case Remove (t1 c) key of
           (True, t, calls) \<Rightarrow> (ok, c\<lparr>t1 := t\<rparr>, calls)
         | (False, t, calls) \<Rightarrow>
             (case Remove (t2 c) key of
                (True, t', calls2) \<Rightarrow> (ok, c\<lparr>t2 := t'\<rparr>, calls2)
              | (False, t', calls2) \<Rightarrow>
                  (case Remove (b1 c) key of
                     (True, b, calls3) \<Rightarrow> (ok, c\<lparr>b1 := b\<rparr>, calls3)
                   | (False, b, calls3) \<Rightarrow>
                       (case Remove (b2 c) key of
                          (found, b', calls4) \<Rightarrow> (ok, c\<lparr>b2 := b'\<rparr>, calls4)))))"

definition ARC_Keys :: "('k, 'v) ARCCache \<Rightarrow> 'k list" where
  "ARC_Keys c = Keys (t1 c) @ Keys (t2 c)"

definition ARC_Len :: "('k, 'v) ARCCache \<Rightarrow> int" where
  "ARC_Len c = Len (t1 c) + Len (t2 c)"

definition ARC_Clear :: "('k, 'v) ARCCache \<Rightarrow> ('k, 'v) ARCCache \<times> ('k \<times> 'v) list" where
  "ARC_Clear c =
     (case Clear (t1 c) of (t, calls1) \<Rightarrow>
        (case Clear (t2 c) of (t', calls2) \<Rightarrow>
           (case Clear (b1 c) of (b, calls3) \<Rightarrow>
              (case Clear (b2 c) of (b', calls4) \<Rightarrow>
                 (c\<lparr>t1 := t, t2 := t', b1 := b, b2 := b'\<rparr>, calls1 @ calls2 @ calls3 @ calls4)))))"

text \<open>A sequence of operations of a caller on one adaptive replacement cache.\<close>

datatype ('k, 'v) arc_op = ArcAdd 'k 'v | ArcGet 'k | ArcRemove 'k | ArcClear

fun arc_step :: "('k, 'v::zero) ARCCache \<Rightarrow> ('k, 'v) arc_op \<Rightarrow> ('k, 'v) ARCCache" where
  "arc_step c (ArcAdd k v) = fst (ARC_Add c k v)"
| "arc_step c (ArcGet k) = fst (snd (ARC_Get c k))"
| "arc_step c (ArcRemove k) = fst (snd (ARC_Remove c k))"
| "arc_step c ArcClear = fst (ARC_Clear c)"

definition arc_run :: "('k, 'v::zero) ARCCache \<Rightarrow> ('k, 'v) arc_op list \<Rightarrow> ('k, 'v) ARCCache" where
  "arc_run c ops = fold (\<lambda>x c'. arc_step c' x) ops c"

section \<open>Properties of the base engine\<close>

subsection \<open>What \<^verbatim>\<open>Add\<close> does, case by case\<close>

lemma bucket_None_iff: "bucket c k = None \<longleftrightarrow> k \<notin> fst ` set (entries c)"
  by (force simp: bucket_def find_None_iff)

lemma bucket_SomeD: "bucket c k = Some e \<Longrightarrow> e \<in> set (entries c) \<and> fst e = k"
  by (auto simp: bucket_def find_Some_iff)

lemma Add_present:
  assumes "bucket c k = Some e"
  shows "Add c k v = (False, c\<lparr>entries := (k, v) # remove1 e (entries c)\<rparr>, [])"
  using assms bucket_SomeD[OF assms] by (simp add: Add_def list_MoveToFront_def)

lemma Add_absent_fits:
  assumes "bucket c k = None" "int (length (entries c)) < unsafeCache.maxEntries c"
  shows "Add c k v = (False, c\<lparr>entries := (k, v) # entries c\<rparr>, [])"
  using assms by (simp add: Add_def list_PushFront_def list_Len_def)

lemma Add_absent_full:
  assumes "bucket c k = None" "\<not> int (length (entries c)) < unsafeCache.maxEntries c" "entries c \<noteq> []"
  shows "Add c k v = (True, c\<lparr>entries := (k, v) # remove1 (last (entries c)) (entries c)\<rparr>,
            if onEvicted c then [last (entries c)] else [])"
proof -
  have "(k, v) \<noteq> last (entries c)"
    using assms(1,3) by (metis bucket_None_iff fst_conv image_eqI last_in_set)
  then show ?thesis
    using assms by (simp add: Add_def list_PushFront_def list_Len_def removeOldest_def list_Back_def
        removeElement_def list_Remove_def evicting_def)
qed

lemma Add_absent_empty_discard:
  assumes "entries c = []" "unsafeCache.maxEntries c \<le> 0"
  shows "Add c k v = (True, c, if onEvicted c then [(k, v)] else [])"
  using assms by (simp add: Add_def bucket_def list_PushFront_def list_Len_def removeOldest_def list_Back_def
        removeElement_def list_Remove_def evicting_def)

lemma bucket_hd: "bucket (c\<lparr>entries := (k, v) # es\<rparr>) k = Some (k, v)"
  by (simp add: bucket_def)

lemma Add_hd:
  assumes "1 \<le> unsafeCache.maxEntries c"
  shows "\<exists>es. entries (fst (snd (Add c k v))) = (k, v) # es"
proof (cases "bucket c k")
  case (Some e)
  then show ?thesis by (simp add: Add_present)
next
  case None
  show ?thesis
  proof (cases "int (length (entries c)) < unsafeCache.maxEntries c")
    case True
    with None show ?thesis by (simp add: Add_absent_fits)
  next
    case False
    with assms have "entries c \<noteq> []" by auto
    with None False show ?thesis by (simp add: Add_absent_full)
  qed
qed

lemma Peek_hd: "entries c = (k, v) # es \<Longrightarrow> Peek c k = Some v"
  by (simp add: Peek_def bucket_def)

lemma Get_hd: "entries c = (k, v) # es \<Longrightarrow> Get c k = (Some v, c)"
  by (simp add: Get_def bucket_def list_MoveToFront_def)

subsection \<open>Round trip of \<^verbatim>\<open>Add\<close>, \<^verbatim>\<open>Peek\<close> and \<^verbatim>\<open>Get\<close>\<close>

text \<open>
  Claim C9, as amended. On a base engine whose capacity is at least 1, for every key \<open>k\<close>
  and value \<open>v\<close>, after \<open>Add(k, v)\<close> the call \<open>Peek(k)\<close> returns \<open>(v, true)\<close>; \<open>Peek\<close>
  returns no new state, so \<open>Keys()\<close> is as it was; \<open>Get(k)\<close> right after \<open>Add\<close> returns
  \<open>(v, true)\<close> and leaves \<open>k\<close> in the newest position, the last one of \<open>Keys()\<close>.
\<close>

theorem Add_Peek_Get_roundtrip:
  assumes "1 \<le> unsafeCache.maxEntries c"
  shows "Peek (fst (snd (Add c k v))) k = Some v \<and>
         fst (Get (fst (snd (Add c k v))) k) = Some v \<and>
         Keys (snd (Get (fst (snd (Add c k v))) k)) = Keys (fst (snd (Add c k v))) \<and>
         last (Keys (snd (Get (fst (snd (Add c k v))) k))) = k"
proof -
  obtain es where es: "entries (fst (snd (Add c k v))) = (k, v) # es"
    using Add_hd[OF assms] by blast
  show ?thesis
    using Peek_hd[OF es] Get_hd[OF es] es by (simp add: Keys_def)
qed

theorem Add_Peek_Get_roundtrip_witness:
  "Peek (fst (snd (Add (NewUnsafeLru 2 [] :: (nat, nat) unsafeCache) 7 9))) 7 = Some 9 \<and>
   fst (Get (fst (snd (Add (NewUnsafeLru 2 [] :: (nat, nat) unsafeCache) 7 9))) 7) = Some 9"
  using Add_Peek_Get_roundtrip[of "NewUnsafeLru 2 [] :: (nat, nat) unsafeCache" 7 9]
  by (simp add: NewUnsafeLru_def)

text \<open>
  Claim C9 as stated covers every base engine, also one whose capacity \<^verbatim>\<open>Resize\<close> has set
  to zero. There \<open>Add(1, 1)\<close> evicts the entry it has just inserted and \<open>Peek(1)\<close> finds
  nothing.
\<close>

theorem Add_Peek_roundtrip_counterexample:
  "Peek (fst (snd (Add (fst (snd (Resize (NewUnsafeLru 1 [] :: (nat, nat) unsafeCache) 0))) 1 1))) 1 \<noteq> Some 1"
  by (simp add: Peek_def Add_def Resize_def NewUnsafeLru_def Len_def list_Len_def wrap64_def bucket_def
      list_PushFront_def removeOldest_def list_Back_def removeElement_def list_Remove_def)

subsection \<open>\<^verbatim>\<open>Resize\<close>\<close>

lemma remove1_last_distinct:
  "distinct es \<Longrightarrow> es \<noteq> [] \<Longrightarrow> remove1 (last es) es = butlast es"
  by (induction es) auto

lemma wf_cache_distinct: "wf_cache c \<Longrightarrow> distinct (entries c)"
  by (simp add: wf_cache_def distinct_map)

lemma removeOldest_empty: "entries c = [] \<Longrightarrow> removeOldest c = (c, [])"
  by (simp add: removeOldest_def list_Back_def)

lemma removeOldest_nonempty:
  assumes "wf_cache c" "entries c \<noteq> []"
  shows "removeOldest c = (c\<lparr>entries := butlast (entries c)\<rparr>,
           if onEvicted c then [last (entries c)] else [])"
  using assms remove1_last_distinct[OF wf_cache_distinct[OF assms(1)] assms(2)]
  by (simp add: removeOldest_def list_Back_def removeElement_def list_Remove_def evicting_def)

lemma wf_cache_butlast: "wf_cache c \<Longrightarrow> wf_cache (c\<lparr>entries := butlast (entries c)\<rparr>)"
  by (simp add: wf_cache_def map_butlast distinct_butlast)

lemma Resize_loop_wf:
  assumes "wf_cache c"
  shows "Resize_loop n c =
          (c\<lparr>entries := take (length (entries c) - n) (entries c)\<rparr>,
           if onEvicted c then rev (drop (length (entries c) - n) (entries c)) else [])"
  using assms
proof (induction n arbitrary: c)
  case 0
  then show ?case by simp
next
  case (Suc n)
  show ?case
  proof (cases "entries c = []")
    case True
    then have "removeOldest c = (c, [])" by (rule removeOldest_empty)
    with Suc True show ?thesis by simp
  next
    case False
    let ?c1 = "c\<lparr>entries := butlast (entries c)\<rparr>"
    have ro: "removeOldest c = (?c1, if onEvicted c then [last (entries c)] else [])"
      using Suc.prems False by (rule removeOldest_nonempty)
    have wf1: "wf_cache ?c1" using Suc.prems by (rule wf_cache_butlast)
    obtain ys y where es: "entries c = ys @ [y]"
      using False by (metis append_butlast_last_id)
    have tk: "take (length (butlast (entries c)) - n) (butlast (entries c)) =
              take (length (entries c) - Suc n) (entries c)"
      by (simp add: es)
    have dr: "rev (drop (length (entries c) - Suc n) (entries c)) =
          last (entries c) # rev (drop (length (butlast (entries c)) - n) (butlast (entries c)))"
      by (simp add: es)
    show ?thesis
      using Suc.IH[OF wf1] ro tk dr by simp
  qed
qed


lemma wrap64_id: "- (2 ^ 63) \<le> x \<Longrightarrow> x < 2 ^ 63 \<Longrightarrow> wrap64 x = x"
  by (simp add: wrap64_def)

lemma Resize_no_overflow:
  assumes "wf_cache c" "- (2 ^ 63) \<le> Len c - sz" "Len c - sz < 2 ^ 63"
  shows "Resize c sz =
          (max 0 (Len c - sz),
           c\<lparr>entries := take (nat (min (Len c) (max sz 0))) (entries c), unsafeCache.maxEntries := sz\<rparr>,
           if onEvicted c then rev (drop (nat (min (Len c) (max sz 0))) (entries c)) else [])"
proof -
  have w: "wrap64 (Len c - sz) = Len c - sz"
    using assms(2,3) by (rule wrap64_id)
  have n: "length (entries c) - nat (max 0 (Len c - sz)) = nat (min (Len c) (max sz 0))"
    by (auto simp: Len_def list_Len_def)
  have m: "(if Len c - sz < 0 then 0 else Len c - sz) = max 0 (Len c - sz)"
    by simp
  show ?thesis
    unfolding Resize_def Let_def w m Resize_loop_wf[OF assms(1)] n
    by simp
qed

text \<open>
  Claim C5, as amended. For every well-formed base engine and every \<open>newCap\<close> for which
  the subtraction \<open>Len() - newCap\<close> stays within the 64-bit range, \<open>Resize(newCap)\<close> asks
  \<open>max(0, Len() - newCap)\<close> times for the eviction of the oldest entry and returns that
  number of requests; a request on an empty list does nothing. The capacity becomes
  \<open>newCap\<close> whatever its sign, the newest \<open>min(Len(), max(newCap, 0))\<close> entries stay, the
  callback (when set) sees the evicted entries oldest first, and the number of entries
  that left is the smaller of the returned number and the old length. The returned
  number is the number of entries evicted when \<open>newCap\<close> is not negative.
\<close>

theorem Resize_contract:
  assumes "wf_cache c" "- (2 ^ 63) \<le> Len c - sz" "Len c - sz < 2 ^ 63"
  shows "fst (Resize c sz) = max 0 (Len c - sz) \<and>
         unsafeCache.maxEntries (fst (snd (Resize c sz))) = sz \<and>
         Len (fst (snd (Resize c sz))) = min (Len c) (max sz 0) \<and>
         entries (fst (snd (Resize c sz))) = take (nat (min (Len c) (max sz 0))) (entries c) \<and>
         snd (snd (Resize c sz)) =
           (if onEvicted c then rev (drop (nat (min (Len c) (max sz 0))) (entries c)) else []) \<and>
         Len c - Len (fst (snd (Resize c sz))) = min (fst (Resize c sz)) (Len c) \<and>
         (0 \<le> sz \<longrightarrow> fst (Resize c sz) = Len c - Len (fst (snd (Resize c sz))))"
  unfolding Resize_no_overflow[OF assms]
  by (auto simp: Len_def list_Len_def)

theorem Resize_contract_witness:
  "fst (Resize (fst (snd (Add (NewUnsafeLru 4 [WithOnEvicted] :: (nat, nat) unsafeCache) 5 6))) 0) = 1 \<and>
   snd (snd (Resize (fst (snd (Add (NewUnsafeLru 4 [WithOnEvicted] :: (nat, nat) unsafeCache) 5 6))) 0)) = [(5, 6)]"
proof -
  let ?c = "fst (snd (Add (NewUnsafeLru 4 [WithOnEvicted] :: (nat, nat) unsafeCache) 5 6))"
  have c: "?c = \<lparr>unsafeCache.maxEntries = 4, onEvicted = True, async = False, entries = [(5, 6)]\<rparr>"
    by (simp add: Add_def NewUnsafeLru_def bucket_def list_PushFront_def list_Len_def)
  have h1: "wf_cache ?c" unfolding c by (simp add: wf_cache_def)
  have h2: "- (2 ^ 63) \<le> Len ?c - 0" unfolding c by (simp add: Len_def list_Len_def)
  have h3: "Len ?c - 0 < 2 ^ 63" unfolding c by (simp add: Len_def list_Len_def)
  show ?thesis
    using Resize_contract[OF h1 h2 h3] unfolding c by (simp add: Len_def list_Len_def)
qed

text \<open>
  Claim C5 as stated says that the returned number is the number of entries evicted.
  On an engine with one entry, \<open>Resize(-1)\<close> returns 2 and evicts one entry, as the
  repository's test of \<open>Resize\<close> expects (\<open>evicted\<close> equal to \<open>Len() - size\<close>).
\<close>

theorem Resize_returns_requests_counterexample:
  "fst (Resize (fst (snd (Add (NewUnsafeLru 1 [] :: (nat, nat) unsafeCache) 5 5))) (- 1)) \<noteq>
   Len (fst (snd (Add (NewUnsafeLru 1 [] :: (nat, nat) unsafeCache) 5 5))) -
   Len (fst (snd (Resize (fst (snd (Add (NewUnsafeLru 1 [] :: (nat, nat) unsafeCache) 5 5))) (- 1))))"
  by (simp add: Add_def NewUnsafeLru_def bucket_def list_PushFront_def list_Len_def Resize_def Len_def
      wrap64_def removeOldest_def list_Back_def removeElement_def list_Remove_def numeral_2_eq_2)

subsection \<open>Well-formedness is kept\<close>

lemma maxEntries_fold_Option: "unsafeCache.maxEntries (fold apply_Option opts c) = unsafeCache.maxEntries c"
proof (induction opts arbitrary: c)
  case Nil
  show ?case by simp
next
  case (Cons o1 opts)
  then show ?case by (cases o1) simp_all
qed

lemma entries_fold_Option: "entries (fold apply_Option opts c) = entries c"
proof (induction opts arbitrary: c)
  case Nil
  show ?case by simp
next
  case (Cons o1 opts)
  then show ?case by (cases o1) simp_all
qed

lemma wf_cache_NewUnsafeLru: "wf_cache (NewUnsafeLru n opts)"
  by (simp add: NewUnsafeLru_def wf_cache_def entries_fold_Option)

lemma maxEntries_NewUnsafeLru:
  "unsafeCache.maxEntries (NewUnsafeLru n opts) = (if n \<le> 0 then 128 else n)"
  by (simp add: NewUnsafeLru_def maxEntries_fold_Option defaultSize_def)

lemma entries_NewUnsafeLru: "entries (NewUnsafeLru n opts) = []"
  by (simp add: NewUnsafeLru_def entries_fold_Option)

lemma distinct_keys_remove1: "distinct (map fst es) \<Longrightarrow> distinct (map fst (remove1 e es))"
  by (induction es) (auto simp: image_iff dest: notin_set_remove1)

lemma keys_remove1_subset: "fst ` set (remove1 e es) \<subseteq> fst ` set es"
  using set_remove1_subset by fastforce

lemma key_notin_remove1:
  "distinct (map fst es) \<Longrightarrow> e \<in> set es \<Longrightarrow> fst e \<notin> fst ` set (remove1 e es)"
proof (induction es)
  case Nil
  then show ?case by simp
next
  case (Cons x es)
  show ?case
  proof (cases "x = e")
    case True
    with Cons.prems show ?thesis by simp
  next
    case False
    with Cons.prems have "e \<in> set es" by simp
    with Cons.IH Cons.prems(1) have "fst e \<notin> fst ` set (remove1 e es)" by simp
    moreover have "fst e \<noteq> fst x" using Cons.prems \<open>e \<in> set es\<close> by (auto simp: image_iff)
    ultimately show ?thesis using False by simp
  qed
qed

lemma wf_cache_Add: 
  assumes "wf_cache c"
  shows "wf_cache (fst (snd (Add c k v)))"
proof (cases "bucket c k")
  case (Some e)
  have e: "e \<in> set (entries c)" "fst e = k" using bucket_SomeD[OF Some] by auto
  have "k \<notin> fst ` set (remove1 e (entries c))"
    using key_notin_remove1[of "entries c" e] assms e by (simp add: wf_cache_def)
  moreover have "distinct (map fst (remove1 e (entries c)))"
    using assms by (simp add: wf_cache_def distinct_keys_remove1)
  ultimately show ?thesis by (simp add: Add_present[OF Some] wf_cache_def)
next
  case None
  then have k: "k \<notin> fst ` set (entries c)" by (simp add: bucket_None_iff)
  show ?thesis
  proof (cases "int (length (entries c)) < unsafeCache.maxEntries c")
    case True
    show ?thesis using assms k by (simp add: Add_absent_fits[OF None True] wf_cache_def)
  next
    case False
    show ?thesis
    proof (cases "entries c = []")
      case True
      with False have "unsafeCache.maxEntries c \<le> 0" by simp
      then show ?thesis
        using assms by (simp add: Add_absent_empty_discard[OF True])
    next
      case ne: False
      have "k \<notin> fst ` set (remove1 (last (entries c)) (entries c))"
        using k keys_remove1_subset[of "last (entries c)" "entries c"] by blast
      then show ?thesis
        using assms by (simp add: Add_absent_full[OF None False ne] wf_cache_def distinct_keys_remove1)
    qed
  qed
qed

lemma wf_cache_Get:
  assumes "wf_cache c"
  shows "wf_cache (snd (Get c k))"
proof (cases "bucket c k")
  case None
  then show ?thesis using assms by (simp add: Get_def)
next
  case (Some e)
  have e: "e \<in> set (entries c)" "fst e = k" using bucket_SomeD[OF Some] by auto
  have "fst e \<notin> fst ` set (remove1 e (entries c))"
    using key_notin_remove1[of "entries c" e] assms e by (simp add: wf_cache_def)
  moreover have "distinct (map fst (remove1 e (entries c)))"
    using assms by (simp add: wf_cache_def distinct_keys_remove1)
  ultimately show ?thesis using Some e by (simp add: Get_def list_MoveToFront_def wf_cache_def)
qed

lemma wf_cache_removeElement: "wf_cache c \<Longrightarrow> wf_cache (fst (removeElement c e))"
  by (simp add: removeElement_def list_Remove_def wf_cache_def distinct_keys_remove1 Let_def)

lemma wf_cache_Remove: "wf_cache c \<Longrightarrow> wf_cache (fst (snd (Remove c k)))"
  using wf_cache_removeElement[of c] by (cases "bucket c k") (simp_all add: Remove_def split_beta)

lemma wf_cache_RemoveOldest: "wf_cache c \<Longrightarrow> wf_cache (fst (snd (RemoveOldest c)))"
  using wf_cache_removeElement[of c] by (cases "list_Back (entries c)") (simp_all add: RemoveOldest_def split_beta)

lemma wf_cache_Clear: "wf_cache (fst (Clear c))"
  by (simp add: Clear_def list_Init_def wf_cache_def)

lemma wf_cache_Resize:
  assumes "wf_cache c"
  shows "wf_cache (fst (snd (Resize c sz)))"
proof -
  have "distinct (map fst (take n (entries c)))" for n
    using distinct_take[of "map fst (entries c)" n] assms by (simp add: wf_cache_def take_map)
  then show ?thesis
    by (simp add: Resize_def Resize_loop_wf[OF assms] Let_def wf_cache_def)
qed

subsection \<open>Capacity zero or less\<close>

text \<open>
  When the subtraction in \<^verbatim>\<open>Resize\<close> does not overflow, a resize to a capacity of
  zero or less empties the engine, and every later \<open>Add\<close> inserts its entry, evicts it at
  once, reports an eviction and leaves the engine empty.
\<close>

lemma Resize_nonpositive_discard:
  assumes "wf_cache c" "sz \<le> 0" "Len c - sz < 2 ^ 63"
  shows "entries (fst (snd (Resize c sz))) = [] \<and>
         unsafeCache.maxEntries (fst (snd (Resize c sz))) = sz \<and>
         Add (fst (snd (Resize c sz))) k v =
           (True, fst (snd (Resize c sz)), if onEvicted c then [(k, v)] else [])"
proof -
  have lo: "- (2 ^ 63) \<le> Len c - sz"
    using assms(2) by (simp add: Len_def list_Len_def)
  have r: "entries (fst (snd (Resize c sz))) = []" "unsafeCache.maxEntries (fst (snd (Resize c sz))) = sz"
    "onEvicted (fst (snd (Resize c sz))) = onEvicted c"
    using assms(2) by (simp_all add: Resize_no_overflow[OF assms(1) lo assms(3)] Len_def list_Len_def)
  show ?thesis
    using Add_absent_empty_discard[of "fst (snd (Resize c sz))" k v] r assms(2) by simp
qed

text \<open>
  Claim C4 at the input where the code departs from it. An engine holds the one entry
  \<open>(5, 5)\<close> and is resized to the least 64-bit integer, a capacity below zero. The
  difference \<open>Len() - size\<close> is \<open>1 + 2^63\<close>, which wraps around to a negative number, the
  guard sets it to 0 and nothing is evicted. The next \<open>Add(7, 7)\<close> of an absent key
  reports an eviction, but the entry that leaves is \<open>(5, 5)\<close>, the new entry stays, and
  \<open>Len()\<close> is 1.
\<close>

theorem Resize_min_int_keeps_entries:
  "fst (Resize (fst (snd (Add (NewUnsafeLru 1 [] :: (nat, nat) unsafeCache) 5 5))) (- 9223372036854775808)) = 0 \<and>
   unsafeCache.maxEntries
     (fst (snd (Resize (fst (snd (Add (NewUnsafeLru 1 [] :: (nat, nat) unsafeCache) 5 5))) (- 9223372036854775808)))) \<le> 0 \<and>
   Keys (fst (snd (Resize (fst (snd (Add (NewUnsafeLru 1 [] :: (nat, nat) unsafeCache) 5 5))) (- 9223372036854775808)))) = [5] \<and>
   fst (Add (fst (snd (Resize (fst (snd (Add (NewUnsafeLru 1 [] :: (nat, nat) unsafeCache) 5 5))) (- 9223372036854775808)))) 7 7) = True \<and>
   Keys (fst (snd (Add (fst (snd (Resize (fst (snd (Add (NewUnsafeLru 1 [] :: (nat, nat) unsafeCache) 5 5))) (- 9223372036854775808)))) 7 7))) = [7] \<and>
   Len (fst (snd (Add (fst (snd (Resize (fst (snd (Add (NewUnsafeLru 1 [] :: (nat, nat) unsafeCache) 5 5))) (- 9223372036854775808)))) 7 7))) = 1"
proof -
  let ?c1 = "\<lparr>unsafeCache.maxEntries = 1, onEvicted = False, async = False, entries = [(5::nat, 5::nat)]\<rparr>"
  let ?c2 = "\<lparr>unsafeCache.maxEntries = - 9223372036854775808, onEvicted = False, async = False, entries = [(5::nat, 5::nat)]\<rparr>"
  let ?c3 = "\<lparr>unsafeCache.maxEntries = - 9223372036854775808, onEvicted = False, async = False, entries = [(7::nat, 7::nat)]\<rparr>"
  have a: "fst (snd (Add (NewUnsafeLru 1 [] :: (nat, nat) unsafeCache) 5 5)) = ?c1"
    by (simp add: Add_def NewUnsafeLru_def bucket_def list_PushFront_def list_Len_def)
  have w: "wrap64 (1 - - 9223372036854775808) < 0"
    by (simp add: wrap64_def)
  have r: "Resize ?c1 (- 9223372036854775808) = (0, ?c2, [])"
    using w by (simp add: Resize_def Len_def list_Len_def)
  have b: "Add ?c2 7 7 = (True, ?c3, [])"
    by (simp add: Add_def bucket_def list_PushFront_def list_Len_def removeOldest_def list_Back_def
        removeElement_def list_Remove_def)
  show ?thesis
    unfolding a r by (simp add: b Keys_def Len_def list_Len_def)
qed

subsection \<open>The engine keeps the most recently accessed keys\<close>

lemma remdups_snoc: "remdups (h @ [k]) = removeAll k (remdups h) @ [k]"
  by (induction h) auto

lemma rev_remdups_snoc: "rev (remdups (h @ [k])) = k # remove1 k (rev (remdups h))"
proof -
  have "rev (remdups (h @ [k])) = k # removeAll k (rev (remdups h))"
    by (simp add: remdups_snoc removeAll_filter_not_eq rev_filter)
  moreover have "distinct (rev (remdups h))" by simp
  ultimately show ?thesis by (simp add: distinct_remove1_removeAll)
qed

lemma take_remove1_in:
  "distinct R \<Longrightarrow> k \<in> set (take (Suc n) R) \<Longrightarrow> take n (remove1 k R) = remove1 k (take (Suc n) R)"
proof (induction R arbitrary: n)
  case Nil
  then show ?case by simp
next
  case (Cons x R)
  show ?case
  proof (cases "x = k")
    case True
    then show ?thesis by simp
  next
    case False
    show ?thesis
    proof (cases n)
      case 0
      with Cons.prems False show ?thesis by simp
    next
      case (Suc m)
      with Cons False show ?thesis by simp
    qed
  qed
qed

lemma take_remove1_notin:
  "k \<notin> set (take n R) \<Longrightarrow> take n (remove1 k R) = take n R"
proof (induction R arbitrary: n)
  case Nil
  then show ?case by simp
next
  case (Cons x R)
  then show ?case by (cases n) auto
qed

lemma map_fst_remove1:
  "distinct (map fst es) \<Longrightarrow> e \<in> set es \<Longrightarrow> map fst (remove1 e es) = remove1 (fst e) (map fst es)"
proof (induction es)
  case Nil
  then show ?case by simp
next
  case (Cons x es)
  show ?case
  proof (cases "x = e")
    case True
    then show ?thesis by simp
  next
    case False
    with Cons.prems have "e \<in> set es" by simp
    moreover have "fst x \<noteq> fst e" using Cons.prems(1) \<open>e \<in> set es\<close> by (auto simp: image_iff)
    ultimately show ?thesis using Cons False by simp
  qed
qed


lemma recency_hit:
  assumes "distinct R" "k \<in> set (take n R)" 
  shows "take n (k # remove1 k R) = k # remove1 k (take n R)"
proof (cases n)
  case 0
  with assms show ?thesis by simp
next
  case (Suc m)
  with assms show ?thesis by (simp add: take_remove1_in)
qed

lemma recency_miss_fits:
  assumes "k \<notin> set (take n R)" "length (take n R) < n"
  shows "take n (k # remove1 k R) = k # take n R"
proof -
  from assms(2) have "length R < n" by simp
  then have "take n R = R" by simp
  with assms(1) have "k \<notin> set R" by simp
  then have "remove1 k R = R" by (simp add: remove1_idem)
  with \<open>length R < n\<close> show ?thesis by (cases n) simp_all
qed

lemma recency_miss_full:
  assumes "k \<notin> set (take n R)" "\<not> length (take n R) < n" "0 < n"
  shows "take n (k # remove1 k R) = k # butlast (take n R)"
proof -
  obtain m where n: "n = Suc m" using assms(3) by (cases n) auto
  from assms(2) have len: "n \<le> length R" by simp
  have "take m (remove1 k R) = take m (take n (remove1 k R))" by (simp add: n min_def)
  also have "\<dots> = take m (take n R)" using assms(1) by (simp add: take_remove1_notin)
  also have "\<dots> = butlast (take n R)" using len by (simp add: n butlast_take min_def)
  finally show ?thesis by (simp add: n)
qed


lemma lru_inv_Add:
  assumes "lru_inv c h"
  shows "lru_inv (fst (snd (Add c k v))) (h @ [k]) \<and>
         unsafeCache.maxEntries (fst (snd (Add c k v))) = unsafeCache.maxEntries c \<and>
         (fst (Add c k v) \<longrightarrow> int (length (entries (fst (snd (Add c k v))))) = unsafeCache.maxEntries c) \<and>
         length (entries c) \<le> length (entries (fst (snd (Add c k v))))"
proof -
  let ?n = "nat (unsafeCache.maxEntries c)"
  let ?R = "rev (remdups h)"
  have wf: "wf_cache c" and cap: "1 \<le> unsafeCache.maxEntries c"
    and keys: "map fst (entries c) = take ?n ?R"
    using assms by (simp_all add: lru_inv_def)
  have wf': "wf_cache (fst (snd (Add c k v)))" using wf by (rule wf_cache_Add)
  have dR: "distinct ?R" by simp
  show ?thesis
  proof (cases "bucket c k")
    case (Some e)
    have e: "e \<in> set (entries c)" "fst e = k" using bucket_SomeD[OF Some] by auto
    then have kin: "k \<in> set (take ?n ?R)" using keys by (metis image_eqI set_map)
    have "map fst (remove1 e (entries c)) = remove1 k (take ?n ?R)"
      using map_fst_remove1[of "entries c" e] wf e keys by (simp add: wf_cache_def)
    then have "map fst (entries (fst (snd (Add c k v)))) = take ?n (rev (remdups (h @ [k])))"
      using recency_hit[OF dR kin] by (simp add: Add_present[OF Some] rev_remdups_snoc)
    moreover have "length (remove1 e (entries c)) = length (entries c) - 1"
      using e(1) by (simp add: length_remove1)
    moreover have "entries c \<noteq> []" using e(1) by auto
    ultimately show ?thesis
      using wf' cap by (simp add: lru_inv_def Add_present[OF Some])
  next
    case None
    then have knot: "k \<notin> set (take ?n ?R)" using keys by (simp add: bucket_None_iff flip: set_map)
    show ?thesis
    proof (cases "int (length (entries c)) < unsafeCache.maxEntries c")
      case True
      then have "length (take ?n ?R) < ?n" using keys by (metis length_map zless_nat_eq_int_zless)
      then have "take ?n (k # remove1 k ?R) = k # take ?n ?R"
        using recency_miss_fits[OF knot] by simp
      then have "map fst (entries (fst (snd (Add c k v)))) = take ?n (rev (remdups (h @ [k])))"
        using keys by (simp add: Add_absent_fits[OF None True] rev_remdups_snoc)
      then show ?thesis
        using wf' cap by (simp add: lru_inv_def Add_absent_fits[OF None True])
    next
      case False
      then have ne: "entries c \<noteq> []" using cap by auto
      have full: "\<not> length (take ?n ?R) < ?n"
        using False keys by (metis length_map zless_nat_eq_int_zless)
      have r1: "remove1 (last (entries c)) (entries c) = butlast (entries c)"
        using remove1_last_distinct[OF wf_cache_distinct[OF wf] ne] .
      have "take ?n (k # remove1 k ?R) = k # butlast (take ?n ?R)"
        using recency_miss_full[OF knot full] cap by simp
      then have k': "map fst (entries (fst (snd (Add c k v)))) = take ?n (rev (remdups (h @ [k])))"
        using keys by (simp add: Add_absent_full[OF None False ne] r1 rev_remdups_snoc map_butlast)
      have "length (entries c) = ?n"
        using full keys by (metis length_map length_take min_less_iff_conj nat_neq_iff)
      then have "int (length (entries (fst (snd (Add c k v))))) = unsafeCache.maxEntries c"
          "length (entries c) \<le> length (entries (fst (snd (Add c k v))))"
        using ne cap by (simp_all add: Add_absent_full[OF None False ne] r1)
      then show ?thesis
        using wf' cap k' by (simp add: lru_inv_def Add_absent_full[OF None False ne])
    qed
  qed
qed


lemma lru_inv_Get:
  assumes "lru_inv c h"
  shows "lru_inv (snd (Get c k)) (h @ (if fst (Get c k) = None then [] else [k])) \<and>
         unsafeCache.maxEntries (snd (Get c k)) = unsafeCache.maxEntries c \<and>
         length (entries (snd (Get c k))) = length (entries c)"
proof -
  let ?n = "nat (unsafeCache.maxEntries c)"
  let ?R = "rev (remdups h)"
  have wf: "wf_cache c" and cap: "1 \<le> unsafeCache.maxEntries c"
    and keys: "map fst (entries c) = take ?n ?R"
    using assms by (simp_all add: lru_inv_def)
  have wf': "wf_cache (snd (Get c k))" using wf by (rule wf_cache_Get)
  have dR: "distinct ?R" by simp
  show ?thesis
  proof (cases "bucket c k")
    case None
    then show ?thesis using assms by (simp add: Get_def)
  next
    case (Some e)
    have e: "e \<in> set (entries c)" "fst e = k" using bucket_SomeD[OF Some] by auto
    then have kin: "k \<in> set (take ?n ?R)" using keys by (metis image_eqI set_map)
    have g: "Get c k = (Some (snd e), c\<lparr>entries := e # remove1 e (entries c)\<rparr>)"
      using Some e by (simp add: Get_def list_MoveToFront_def)
    have "map fst (remove1 e (entries c)) = remove1 k (take ?n ?R)"
      using map_fst_remove1[of "entries c" e] wf e keys by (simp add: wf_cache_def)
    then have "map fst (entries (snd (Get c k))) = take ?n (rev (remdups (h @ [k])))"
      using recency_hit[OF dR kin] e by (simp add: g rev_remdups_snoc)
    moreover have "length (remove1 e (entries c)) = length (entries c) - 1"
      using e(1) by (simp add: length_remove1)
    moreover have "entries c \<noteq> []" using e(1) by auto
    ultimately show ?thesis
      using wf' cap by (simp add: lru_inv_def g)
  qed
qed

lemma lru_inv_step:
  assumes "lru_inv c h" "step c x = (c', h1, e)"
  shows "lru_inv c' (h @ h1) \<and> unsafeCache.maxEntries c' = unsafeCache.maxEntries c \<and>
         (e \<longrightarrow> int (length (entries c')) = unsafeCache.maxEntries c) \<and>
         length (entries c) \<le> length (entries c')"
proof (cases x)
  case (OpAdd k v)
  obtain ev c1 calls where a: "Add c k v = (ev, c1, calls)" by (cases "Add c k v") auto
  with assms(2) OpAdd have "c' = c1" "h1 = [k]" "e = ev" by simp_all
  with lru_inv_Add[OF assms(1), of k v] a show ?thesis by simp
next
  case (OpGet k)
  obtain r c1 where g: "Get c k = (r, c1)" by (cases "Get c k") auto
  with assms(2) OpGet have "c' = c1" "h1 = (if r = None then [] else [k])" "e = False"
    by (cases r; simp)+
  with lru_inv_Get[OF assms(1), of k] g show ?thesis by simp
qed

lemma lru_inv_length: "lru_inv c h \<Longrightarrow> int (length (entries c)) \<le> unsafeCache.maxEntries c"
proof -
  assume a: "lru_inv c h"
  then have "length (entries c) = length (take (nat (unsafeCache.maxEntries c)) (rev (remdups h)))"
    unfolding lru_inv_def by (metis length_map)
  moreover have "1 \<le> unsafeCache.maxEntries c" using a by (simp add: lru_inv_def)
  ultimately show ?thesis by simp
qed

lemma lru_inv_run_ops:
  assumes "lru_inv c h" "run_ops c xs = (c', h', e)"
  shows "lru_inv c' (h @ h') \<and> unsafeCache.maxEntries c' = unsafeCache.maxEntries c \<and>
         (e \<longrightarrow> int (length (entries c')) = unsafeCache.maxEntries c) \<and>
         length (entries c) \<le> length (entries c')"
  using assms
proof (induction xs arbitrary: c h c' h' e)
  case Nil
  then show ?case by simp
next
  case (Cons x xs)
  obtain c1 h1 e1 where s: "step c x = (c1, h1, e1)" by (cases "step c x") auto
  obtain c2 h2 e2 where r: "run_ops c1 xs = (c2, h2, e2)" by (cases "run_ops c1 xs") auto
  from Cons.prems(2) s r have eq: "c' = c2" "h' = h1 @ h2" "e = (e1 \<or> e2)" by simp_all
  note st = lru_inv_step[OF Cons.prems(1) s]
  from st have i1: "lru_inv c1 (h @ h1)" by simp
  note ih = Cons.IH[OF i1 r]
  have le: "int (length (entries c2)) \<le> unsafeCache.maxEntries c"
    using lru_inv_length[of c2 "(h @ h1) @ h2"] ih st by simp
  show ?case
    unfolding eq using st ih le by auto
qed

lemma lru_inv_NewUnsafeLru: "lru_inv (NewUnsafeLru n opts) []"
  by (simp add: lru_inv_def wf_cache_NewUnsafeLru maxEntries_NewUnsafeLru entries_NewUnsafeLru)

lemma Keys_most_recent:
  assumes "lru_inv c h"
  shows "Keys c = most_recent (nat (unsafeCache.maxEntries c)) h"
proof -
  have "Keys c = rev (take (nat (unsafeCache.maxEntries c)) (rev (remdups h)))"
    using assms by (simp add: Keys_def lru_inv_def rev_map)
  then show ?thesis by (simp add: most_recent_def rev_take)
qed


lemma run_ops_scenario:
  "run_ops (NewUnsafeLru 10 [] :: (int, int) unsafeCache) (map (\<lambda>i. OpAdd i i) [0..19]) =
     (\<lparr>unsafeCache.maxEntries = 10, onEvicted = False, async = False,
       entries = map (\<lambda>i. (i, i)) (rev [10..19])\<rparr>, [0..19], True)"
  by code_simp

lemma Get_hit_iff_resident: "fst (Get c k) \<noteq> None \<longleftrightarrow> k \<in> set (Keys c)"
  using bucket_None_iff[of c k] by (cases "bucket c k") (simp_all add: Get_def Keys_def)

lemma lru_inv_step_accesses:
  assumes "lru_inv c h" "step c x = (c', h1, e)"
  shows "accesses (nat (unsafeCache.maxEntries c)) (x # xs) h =
         accesses (nat (unsafeCache.maxEntries c)) xs (h @ h1)"
proof (cases x)
  case (OpAdd k v)
  with assms(2) have "h1 = [k]" by (simp add: split_beta)
  with OpAdd show ?thesis by simp
next
  case (OpGet k)
  have r: "k \<in> set (most_recent (nat (unsafeCache.maxEntries c)) h) \<longleftrightarrow> fst (Get c k) \<noteq> None"
    unfolding Get_hit_iff_resident Keys_most_recent[OF assms(1)] by (rule refl)
  obtain g c1 where g: "Get c k = (g, c1)" by (cases "Get c k") auto
  with assms(2) OpGet have "h1 = (if g = None then [] else [k])" by (cases g) simp_all
  with OpGet r g show ?thesis by simp
qed

lemma run_ops_accesses:
  assumes "lru_inv c h" "run_ops c xs = (c', h', e)"
  shows "h @ h' = accesses (nat (unsafeCache.maxEntries c)) xs h"
  using assms
proof (induction xs arbitrary: c h c' h' e)
  case Nil
  then show ?case by simp
next
  case (Cons x xs)
  obtain c1 h1 e1 where s: "step c x = (c1, h1, e1)" by (cases "step c x") auto
  obtain c2 h2 e2 where r: "run_ops c1 xs = (c2, h2, e2)" by (cases "run_ops c1 xs") auto
  from Cons.prems(2) s r have eq: "h' = h1 @ h2" by simp
  note st = lru_inv_step[OF Cons.prems(1) s]
  from st have i1: "lru_inv c1 (h @ h1)" and m: "unsafeCache.maxEntries c1 = unsafeCache.maxEntries c" by simp_all
  have "(h @ h1) @ h2 = accesses (nat (unsafeCache.maxEntries c1)) xs (h @ h1)"
    using Cons.IH[OF i1 r] .
  then show ?case
    unfolding eq using lru_inv_step_accesses[OF Cons.prems(1) s, of xs] m by simp
qed

text \<open>
  Claim C6. Take any sequence of \<open>Add\<close> and \<open>Get\<close> operations on an engine made by the
  constructor, whose capacity \<open>c\<close> is the requested one, or 128 when that is not
  positive. After the sequence (so after each of its prefixes) \<open>Len()\<close> is at most \<open>c\<close>.
  The keys the engine reports as accessed (every \<open>Add\<close>, every \<open>Get\<close> that returned a
  value) are the accesses of the sequence as \<open>accesses\<close> tells them without the engine,
  where a \<open>Get\<close> hits exactly when its key is among the \<open>c\<close> most recently accessed;
  \<open>Keys()\<close> lists, oldest first, the most recently accessed keys of that history, at
  most \<open>c\<close> of them, and a \<open>Get\<close> on the final engine returns a value exactly for the keys
  of \<open>Keys()\<close>. Once an operation has evicted an entry the keys are exactly \<open>c\<close>. With
  capacity 10, adding the keys 0 to 9 and then 10 to 19 gives \<open>Len() = 10\<close> and
  \<open>Keys() = [10, ..., 19]\<close>.
\<close>

theorem base_engine_is_LRU:
  fixes n :: int and opts :: "Option list" and ops :: "('k, 'v) lru_op list"
  defines "c0 \<equiv> NewUnsafeLru n opts"
  defines "c \<equiv> fst (run_ops c0 ops)"
  defines "h \<equiv> fst (snd (run_ops c0 ops))"
  defines "evicted \<equiv> snd (snd (run_ops c0 ops))"
  shows "unsafeCache.maxEntries c0 = (if n \<le> 0 then 128 else n) \<and>
         unsafeCache.maxEntries c = unsafeCache.maxEntries c0 \<and>
         Len c \<le> unsafeCache.maxEntries c0 \<and>
         h = accesses (nat (unsafeCache.maxEntries c0)) ops [] \<and>
         Keys c = most_recent (nat (unsafeCache.maxEntries c0)) (accesses (nat (unsafeCache.maxEntries c0)) ops []) \<and>
         (fst (Get c k) \<noteq> None \<longleftrightarrow> k \<in> set (Keys c)) \<and>
         (evicted \<longrightarrow> Len c = unsafeCache.maxEntries c0 \<and>
                      length (most_recent (nat (unsafeCache.maxEntries c0)) h) = nat (unsafeCache.maxEntries c0)) \<and>
         Len (fst (run_ops (NewUnsafeLru 10 [] :: (int, int) unsafeCache) (map (\<lambda>i. OpAdd i i) [0..19]))) = 10 \<and>
         Keys (fst (run_ops (NewUnsafeLru 10 [] :: (int, int) unsafeCache) (map (\<lambda>i. OpAdd i i) [0..19]))) = [10..19]"
proof -
  have r: "run_ops c0 ops = (c, h, evicted)"
    by (simp add: c_def h_def evicted_def)
  have i0: "lru_inv c0 []" unfolding c0_def by (rule lru_inv_NewUnsafeLru)
  note m = lru_inv_run_ops[OF i0 r]
  from m have inv: "lru_inv c h" by simp
  have k: "Keys c = most_recent (nat (unsafeCache.maxEntries c0)) h"
    using Keys_most_recent[OF inv] m by simp
  have l: "Len c \<le> unsafeCache.maxEntries c0"
    using lru_inv_length[OF inv] m by (simp add: Len_def list_Len_def)
  have e: "evicted \<longrightarrow> Len c = unsafeCache.maxEntries c0 \<and>
                      length (most_recent (nat (unsafeCache.maxEntries c0)) h) = nat (unsafeCache.maxEntries c0)"
  proof
    assume evicted
    with m have "int (length (entries c)) = unsafeCache.maxEntries c0" by simp
    moreover have "length (Keys c) = length (entries c)" by (simp add: Keys_def)
    ultimately show "Len c = unsafeCache.maxEntries c0 \<and>
                      length (most_recent (nat (unsafeCache.maxEntries c0)) h) = nat (unsafeCache.maxEntries c0)"
      using k by (simp add: Len_def list_Len_def)
  qed
  have s1: "Len (fst (run_ops (NewUnsafeLru 10 [] :: (int, int) unsafeCache) (map (\<lambda>i. OpAdd i i) [0..19]))) = 10"
    unfolding run_ops_scenario by (simp add: Len_def list_Len_def)
  have s2: "Keys (fst (run_ops (NewUnsafeLru 10 [] :: (int, int) unsafeCache) (map (\<lambda>i. OpAdd i i) [0..19]))) = [10..19]"
    unfolding run_ops_scenario by (simp add: Keys_def rev_map[symmetric] comp_def)
  have a: "h = accesses (nat (unsafeCache.maxEntries c0)) ops []"
    using run_ops_accesses[OF i0 r] by simp
  have g: "fst (Get c k) \<noteq> None \<longleftrightarrow> k \<in> set (Keys c)"
    by (rule Get_hit_iff_resident)
  have k': "Keys c = most_recent (nat (unsafeCache.maxEntries c0)) (accesses (nat (unsafeCache.maxEntries c0)) ops [])"
    using k a by simp
  have m0: "unsafeCache.maxEntries c0 = (if n \<le> 0 then 128 else n)"
    by (simp add: c0_def maxEntries_NewUnsafeLru)
  have m1: "unsafeCache.maxEntries c = unsafeCache.maxEntries c0" using m by simp
  from m0 m1 l a k' g e s1 s2 show ?thesis by blast
qed

theorem base_engine_is_LRU_witness:
  "snd (snd (run_ops (NewUnsafeLru 2 [] :: (nat, nat) unsafeCache) [OpAdd 5 50, OpAdd 2 20, OpGet 5, OpAdd 3 30])) \<and>
   fst (snd (run_ops (NewUnsafeLru 2 [] :: (nat, nat) unsafeCache) [OpAdd 5 50, OpAdd 2 20, OpGet 5, OpAdd 3 30])) =
     [5, 2, 5, 3] \<and>
   Len (fst (run_ops (NewUnsafeLru 2 [] :: (nat, nat) unsafeCache) [OpAdd 5 50, OpAdd 2 20, OpGet 5, OpAdd 3 30])) = 2 \<and>
   Keys (fst (run_ops (NewUnsafeLru 2 [] :: (nat, nat) unsafeCache) [OpAdd 5 50, OpAdd 2 20, OpGet 5, OpAdd 3 30])) =
     [5, 3] \<and>
   fst (Get (fst (run_ops (NewUnsafeLru 2 [] :: (nat, nat) unsafeCache) [OpAdd 5 50, OpAdd 2 20, OpGet 5, OpAdd 3 30])) 5)
     \<noteq> None"
proof -
  let ?ops = "[OpAdd 5 50, OpAdd 2 20, OpGet 5, OpAdd 3 30] :: (nat, nat) lru_op list"
  let ?r = "run_ops (NewUnsafeLru 2 [] :: (nat, nat) unsafeCache) ?ops"
  have e: "snd (snd ?r)" by code_simp
  have a: "accesses (nat 2) ?ops [] = [5, 2, 5, 3]"
    by (simp add: most_recent_def)
  have mr: "most_recent (nat 2) [5, 2, 5, 3 :: nat] = [5, 3]"
    by (simp add: most_recent_def)
  have c: "unsafeCache.maxEntries (NewUnsafeLru 2 [] :: (nat, nat) unsafeCache) = 2"
    by (simp add: maxEntries_NewUnsafeLru)
  note t = base_engine_is_LRU[of 2 "[]" ?ops 5, unfolded c]
  have h: "fst (snd ?r) = accesses (nat 2) ?ops []"
    using t by blast
  have ks: "Keys (fst ?r) = most_recent (nat 2) (accesses (nat 2) ?ops [])"
    using t by blast
  have l: "Len (fst ?r) = 2"
    using t e by blast
  have g: "fst (Get (fst ?r) 5) \<noteq> None \<longleftrightarrow> 5 \<in> set (Keys (fst ?r))"
    using t by blast
  have ks': "Keys (fst ?r) = [5, 3]" unfolding ks a mr by (rule refl)
  have g': "fst (Get (fst ?r) 5) \<noteq> None" unfolding g ks' by simp
  have h': "fst (snd ?r) = [5, 2, 5, 3]" unfolding h a by (rule refl)
  from e h' l ks' g' show ?thesis by blast
qed

section \<open>Properties of the two-queue constructor\<close>

lemma pow2_pos: "0 < pow2 e"
  by (simp add: pow2_def)

lemma round_half_even_nonneg: "0 \<le> n \<Longrightarrow> 0 \<le> round_half_even n"
  by (auto simp: round_half_even_def Let_def)

lemma f64_round_nonneg: "0 \<le> x \<Longrightarrow> 0 \<le> f64_round x"
proof (cases "x = 0")
  case True
  then show ?thesis by (simp add: f64_round_def)
next
  case False
  assume "0 \<le> x"
  with False have x: "0 < x" by simp
  let ?q = "pow2 (max (floor_log2 \<bar>x\<bar>) (- 1022) - 52)"
  have "0 \<le> \<bar>x\<bar> / ?q" using pow2_pos[of "max (floor_log2 \<bar>x\<bar>) (- 1022) - 52"] by simp
  then have "0 \<le> round_half_even (\<bar>x\<bar> / ?q)" by (rule round_half_even_nonneg)
  then have "0 \<le> (of_int (round_half_even (\<bar>x\<bar> / ?q)) :: rat) * ?q"
    using pow2_pos[of "max (floor_log2 \<bar>x\<bar>) (- 1022) - 52"] by simp
  then show ?thesis using x by (simp add: f64_round_def Let_def)
qed

lemma f64_to_int_nonneg:
  assumes "0 \<le> x" "\<lfloor>x\<rfloor> < 2 ^ 63"
  shows "f64_to_int x = Some \<lfloor>x\<rfloor>"
proof -
  have "0 \<le> \<lfloor>x\<rfloor>" using assms(1) by simp
  then show ?thesis using assms by (simp add: f64_to_int_def is_int64_def int64_min_def int64_max_def)
qed

text \<open>
  Claim C2, as amended. For every \<open>maxEntries\<close> (replaced by 128 when not positive) and
  all ratios between 0 and 1 whose products fit a 64-bit integer, the constructor
  returns a cache whose \<open>recentTarget\<close> is the \<^verbatim>\<open>float64\<close> product
  \<open>float64(maxEntries) * recentRatio\<close> cut to an integer, and whose ghost engine has as
  capacity the product for \<open>ghostRatio\<close> cut to an integer when that is at least 1, and
  the default capacity 128 when it is 0.
\<close>

theorem New2QParams_sizes:
  fixes n :: int and recentRatio ghostRatio :: rat and opts :: "Option list"
  defines "n' \<equiv> (if n \<le> 0 then 128 else n)"
  defines "recentTarget \<equiv> \<lfloor>f64_mul (f64_of_int n') recentRatio\<rfloor>"
  defines "ghostSize \<equiv> \<lfloor>f64_mul (f64_of_int n') ghostRatio\<rfloor>"
  assumes "0 \<le> recentRatio" "recentRatio \<le> 1" "0 \<le> ghostRatio" "ghostRatio \<le> 1"
  assumes "recentTarget < 2 ^ 63" "ghostSize < 2 ^ 63"
  shows "\<exists>c :: ('k, 'v) TwoQueueCache.
           New2QParams n recentRatio ghostRatio opts = Some c \<and>
           TwoQueueCache.maxEntries c = n' \<and>
           recentEntries c = recentTarget \<and>
           unsafeCache.maxEntries (recent c) = n' \<and>
           unsafeCache.maxEntries (frequent c) = n' \<and>
           unsafeCache.maxEntries (recentEvict c) = (if ghostSize \<le> 0 then 128 else ghostSize) \<and>
           TwoQ_Len c = 0 \<and> entries (recentEvict c) = []"
proof -
  have n': "0 < n'" by (simp add: n'_def)
  have fn: "0 \<le> f64_of_int n'" using n' by (simp add: f64_of_int_def f64_round_nonneg)
  have r: "0 \<le> f64_mul (f64_of_int n') recentRatio"
    using fn assms(4) by (simp add: f64_mul_def f64_round_nonneg)
  have g: "0 \<le> f64_mul (f64_of_int n') ghostRatio"
    using fn assms(6) by (simp add: f64_mul_def f64_round_nonneg)
  have tr: "f64_to_int (f64_mul (f64_of_int n') recentRatio) = Some recentTarget"
    unfolding recentTarget_def using r assms(8) by (simp add: f64_to_int_nonneg recentTarget_def)
  have tg: "f64_to_int (f64_mul (f64_of_int n') ghostRatio) = Some ghostSize"
    unfolding ghostSize_def using g assms(9) by (simp add: f64_to_int_nonneg ghostSize_def)
  have d: "(if n \<le> 0 then defaultSize else n) = n'" by (simp add: n'_def defaultSize_def)
  have "New2QParams n recentRatio ghostRatio opts =
      Some \<lparr>TwoQueueCache.maxEntries = n', recentEntries = recentTarget,
            recent = NewUnsafeLru n' opts, frequent = NewUnsafeLru n' opts,
            recentEvict = NewUnsafeLru ghostSize opts :: ('k, 'v) unsafeCache\<rparr>"
    using assms(4-7) by (simp add: New2QParams_def d tr tg)
  then show ?thesis
    using n' by (simp add: maxEntries_NewUnsafeLru entries_NewUnsafeLru TwoQ_Len_def Len_def list_Len_def)
qed

theorem New2QParams_sizes_witness:
  "New2QParams 10 (1 / 4) (1 / 2) [] \<noteq> (None :: (nat, nat) TwoQueueCache option) \<and>
   recentEntries (the (New2QParams 10 (1 / 4) (1 / 2) [] :: (nat, nat) TwoQueueCache option)) = 2 \<and>
   unsafeCache.maxEntries (recentEvict (the (New2QParams 10 (1 / 4) (1 / 2) [] :: (nat, nat) TwoQueueCache option))) = 5"
proof -
  have a: "\<lfloor>f64_mul (f64_of_int 10) (1 / 4)\<rfloor> = 2" by code_simp
  have b: "\<lfloor>f64_mul (f64_of_int 10) (1 / 2)\<rfloor> = 5" by code_simp
  obtain c :: "(nat, nat) TwoQueueCache" where
    "New2QParams 10 (1 / 4) (1 / 2) [] = Some c" "recentEntries c = 2"
    "unsafeCache.maxEntries (recentEvict c) = 5"
    using New2QParams_sizes[of "1 / 4" "1 / 2" 10 "[]", where ?'k = nat and ?'v = nat]
    by (auto simp: a b)
  then show ?thesis by simp
qed

text \<open>
  With the default ratios and the default size the two sizes are 32 and 64. The
  \<^verbatim>\<open>float64\<close> product is rounded before it is cut: for the \<^verbatim>\<open>float64\<close> nearest to
  0.7 and \<open>maxEntries = 10\<close> it is 7, while the exact product lies below 7.
\<close>

lemma New2Q_default_sizes:
  "map_option (\<lambda>c. (TwoQueueCache.maxEntries c, recentEntries c, unsafeCache.maxEntries (recentEvict c)))
     (New2Q 0 [] :: (nat, nat) TwoQueueCache option) = Some (128, 32, 64)"
  by code_simp

lemma f64_product_not_exact_floor:
  "f64_round (7 / 10) = 3152519739159347 / 4503599627370496 \<and>
   \<lfloor>f64_mul (f64_of_int 10) (3152519739159347 / 4503599627370496)\<rfloor> = 7 \<and>
   \<lfloor>(10 :: rat) * (3152519739159347 / 4503599627370496)\<rfloor> = 6"
  by code_simp

text \<open>
  Claim C2 as stated gives the ghost engine the capacity \<open>floor(maxEntries * ghostRatio)\<close>.
  For \<open>maxEntries = 1\<close> and \<open>ghostRatio = 0.5\<close> that is 0; the engine's constructor
  replaces a capacity of 0 by the default, and the ghost engine has capacity 128.
\<close>

theorem New2QParams_ghost_capacity_counterexample:
  "New2QParams 1 (1 / 4) (1 / 2) [] \<noteq> (None :: (nat, nat) TwoQueueCache option) \<and>
   unsafeCache.maxEntries (recentEvict (the (New2QParams 1 (1 / 4) (1 / 2) [] :: (nat, nat) TwoQueueCache option)))
     \<noteq> \<lfloor>(1 :: rat) * (1 / 2)\<rfloor>"
  by code_simp

section \<open>Properties of the adaptive replacement cache\<close>

text \<open>
  Claim C1 at the input where the code departs from it. A fresh cache of capacity 1
  receives \<open>Add(1)\<close>, \<open>Add(2)\<close>, \<open>Add(1)\<close>. The second \<open>Add\<close> moves key 1 to the ghost list
  \<open>b1\<close>. The third finds it there and raises \<open>p\<close> to 1; \<open>replace(false)\<close> then sees
  \<open>|t1| = p\<close>, turns to \<open>t2\<close>, which is empty, and evicts nothing; key 1 enters \<open>t2\<close>
  while key 2 is still in \<open>t1\<close>. \<open>Len()\<close> is 2, above \<open>maxEntries = 1\<close>.
\<close>

theorem ARC_exceeds_maxEntries:
  "ARCCache.maxEntries (arc_run (NewARC 1 [] :: (nat, nat) ARCCache) [ArcAdd 1 1, ArcAdd 2 2, ArcAdd 1 1]) = 1 \<and>
   Keys (t1 (arc_run (NewARC 1 [] :: (nat, nat) ARCCache) [ArcAdd 1 1, ArcAdd 2 2, ArcAdd 1 1])) = [2] \<and>
   Keys (t2 (arc_run (NewARC 1 [] :: (nat, nat) ARCCache) [ArcAdd 1 1, ArcAdd 2 2, ArcAdd 1 1])) = [1] \<and>
   ARC_Len (arc_run (NewARC 1 [] :: (nat, nat) ARCCache) [ArcAdd 1 1, ArcAdd 2 2, ArcAdd 1 1]) = 2"
  by code_simp

section \<open>\<^verbatim>\<open>Clear\<close> and the eviction callback\<close>

lemma concat_singletons: "concat (map (\<lambda>e. [(fst e, snd e)]) es) = es"
  by (induction es) auto

lemma Clear_calls: "onEvicted c \<Longrightarrow> snd (Clear c) = entries c"
  by (simp add: Clear_def evicting_def concat_singletons)

lemma Clear_no_callback: "\<not> onEvicted c \<Longrightarrow> snd (Clear c) = []"
  by (simp add: Clear_def)

lemma Clear_entries: "entries (fst (Clear c)) = []"
  by (simp add: Clear_def list_Init_def)

lemma Clear_Len: "Len (fst (Clear c)) = 0"
  by (simp add: Len_def list_Len_def Clear_entries)

lemma Clear_Contains: "\<not> Contains (fst (Clear c)) k"
  by (simp add: Contains_def bucket_def Clear_entries)

lemma TwoQ_Clear_parts:
  "recent (fst (TwoQ_Clear q)) = fst (Clear (recent q))"
  "frequent (fst (TwoQ_Clear q)) = fst (Clear (frequent q))"
  "recentEvict (fst (TwoQ_Clear q)) = fst (Clear (recentEvict q))"
  "snd (TwoQ_Clear q) = snd (Clear (recent q)) @ snd (Clear (frequent q)) @ snd (Clear (recentEvict q))"
  by (simp_all add: TwoQ_Clear_def split_beta)

lemma ARC_Clear_parts:
  "t1 (fst (ARC_Clear a)) = fst (Clear (t1 a))"
  "t2 (fst (ARC_Clear a)) = fst (Clear (t2 a))"
  "b1 (fst (ARC_Clear a)) = fst (Clear (b1 a))"
  "b2 (fst (ARC_Clear a)) = fst (Clear (b2 a))"
  "snd (ARC_Clear a) = snd (Clear (t1 a)) @ snd (Clear (t2 a)) @ snd (Clear (b1 a)) @ snd (Clear (b2 a))"
  by (simp_all add: ARC_Clear_def split_beta)

text \<open>
  Claim C3, as amended. With the callback set, \<open>Clear()\<close> invokes it once for every entry
  of every engine the cache is made of. For the base engine and the wrapper these are
  the resident entries. The two-queue cache and the adaptive replacement cache hand their
  options to the ghost engines too, so there the callback is invoked once for each
  resident entry and once more for each ghost key, with the value the ghost engine holds.
  Afterwards \<open>Len()\<close> is 0 and \<open>Contains(k)\<close> is false for every key. The trace is compared
  as a multiset, the order of the calls within one engine being that of a Go map.
\<close>

theorem Clear_invokes_callback_per_entry:
  fixes c :: "('k, 'v) unsafeCache" and w :: "('k, 'v) Cache"
    and q :: "('k, 'v) TwoQueueCache" and a :: "('k, 'v) ARCCache"
  shows "(onEvicted c \<longrightarrow> mset (snd (Clear c)) = mset (entries c)) \<and>
         Len (fst (Clear c)) = 0 \<and> (\<forall>k. \<not> Contains (fst (Clear c)) k) \<and>
         (onEvicted (lru w) \<longrightarrow> mset (snd (Cache_Clear w)) = mset (entries (lru w))) \<and>
         Cache_Len (fst (Cache_Clear w)) = 0 \<and> (\<forall>k. \<not> Cache_Contains (fst (Cache_Clear w)) k) \<and>
         (onEvicted (recent q) \<and> onEvicted (frequent q) \<and> onEvicted (recentEvict q) \<longrightarrow>
            mset (snd (TwoQ_Clear q)) =
              mset (entries (recent q)) + mset (entries (frequent q)) + mset (entries (recentEvict q))) \<and>
         TwoQ_Len (fst (TwoQ_Clear q)) = 0 \<and> (\<forall>k. \<not> TwoQ_Contains (fst (TwoQ_Clear q)) k) \<and>
         (onEvicted (t1 a) \<and> onEvicted (t2 a) \<and> onEvicted (b1 a) \<and> onEvicted (b2 a) \<longrightarrow>
            mset (snd (ARC_Clear a)) =
              mset (entries (t1 a)) + mset (entries (t2 a)) + mset (entries (b1 a)) + mset (entries (b2 a))) \<and>
         ARC_Len (fst (ARC_Clear a)) = 0 \<and> (\<forall>k. \<not> ARC_Contains (fst (ARC_Clear a)) k)"
proof -
  have base: "(onEvicted c \<longrightarrow> mset (snd (Clear c)) = mset (entries c)) \<and>
         Len (fst (Clear c)) = 0 \<and> (\<forall>k. \<not> Contains (fst (Clear c)) k)"
    by (simp add: Clear_calls Clear_Len Clear_Contains)
  have wrapped: "(onEvicted (lru w) \<longrightarrow> mset (snd (Cache_Clear w)) = mset (entries (lru w))) \<and>
         Cache_Len (fst (Cache_Clear w)) = 0 \<and> (\<forall>k. \<not> Cache_Contains (fst (Cache_Clear w)) k)"
    by (simp add: Cache_Clear_def Cache_Len_def Cache_Contains_def split_beta Clear_calls Clear_Len Clear_Contains)
  have twoq: "(onEvicted (recent q) \<and> onEvicted (frequent q) \<and> onEvicted (recentEvict q) \<longrightarrow>
            mset (snd (TwoQ_Clear q)) =
              mset (entries (recent q)) + mset (entries (frequent q)) + mset (entries (recentEvict q))) \<and>
         TwoQ_Len (fst (TwoQ_Clear q)) = 0 \<and> (\<forall>k. \<not> TwoQ_Contains (fst (TwoQ_Clear q)) k)"
    by (simp add: TwoQ_Clear_parts TwoQ_Len_def TwoQ_Contains_def Clear_calls Clear_Len Clear_Contains)
  have arc: "(onEvicted (t1 a) \<and> onEvicted (t2 a) \<and> onEvicted (b1 a) \<and> onEvicted (b2 a) \<longrightarrow>
            mset (snd (ARC_Clear a)) =
              mset (entries (t1 a)) + mset (entries (t2 a)) + mset (entries (b1 a)) + mset (entries (b2 a))) \<and>
         ARC_Len (fst (ARC_Clear a)) = 0 \<and> (\<forall>k. \<not> ARC_Contains (fst (ARC_Clear a)) k)"
    by (simp add: ARC_Clear_parts ARC_Len_def ARC_Contains_def Clear_calls Clear_Len Clear_Contains)
  from base wrapped twoq arc show ?thesis by blast
qed

text \<open>Some reachable states with the callback set, evaluated.\<close>

lemma TwoQ_three_adds:
  "fst (TwoQ_Add (fst (TwoQ_Add (fst (TwoQ_Add (the (New2QParams 2 (1 / 4) (1 / 2) [WithOnEvicted])) 1 10)) 2 20)) 3 30) =
    \<lparr>TwoQueueCache.maxEntries = 2, recentEntries = 0,
      recent = \<lparr>unsafeCache.maxEntries = 2, onEvicted = True, async = False, entries = [(3, 30), (2, 20 :: nat)]\<rparr>,
      frequent = \<lparr>unsafeCache.maxEntries = 2, onEvicted = True, async = False, entries = []\<rparr>,
      recentEvict = \<lparr>unsafeCache.maxEntries = 1, onEvicted = True, async = False, entries = [(1 :: nat, 0)]\<rparr>\<rparr>"
  by code_simp

lemma ARC_two_adds:
  "arc_run (NewARC 1 [WithOnEvicted]) [ArcAdd 1 10, ArcAdd 2 20] =
    \<lparr>ARCCache.maxEntries = 1, p = 0,
      t1 = \<lparr>unsafeCache.maxEntries = 1, onEvicted = True, async = False, entries = [(2 :: nat, 20 :: nat)]\<rparr>,
      b1 = \<lparr>unsafeCache.maxEntries = 1, onEvicted = True, async = False, entries = [(1, 0)]\<rparr>,
      t2 = \<lparr>unsafeCache.maxEntries = 1, onEvicted = True, async = False, entries = []\<rparr>,
      b2 = \<lparr>unsafeCache.maxEntries = 1, onEvicted = True, async = False, entries = []\<rparr>\<rparr>"
  by code_simp

lemma base_one_add:
  "fst (snd (Add (NewUnsafeLru 4 [WithOnEvicted]) 5 6)) =
     \<lparr>unsafeCache.maxEntries = 4, onEvicted = True, async = False, entries = [(5 :: nat, 6 :: nat)]\<rparr>"
  by code_simp

theorem Clear_invokes_callback_per_entry_witness:
  "onEvicted (fst (snd (Add (NewUnsafeLru 4 [WithOnEvicted]) (5 :: nat) (6 :: nat)))) \<and>
   mset (snd (Clear (fst (snd (Add (NewUnsafeLru 4 [WithOnEvicted]) (5 :: nat) (6 :: nat)))))) = {#(5, 6)#} \<and>
   onEvicted (lru (fst (snd (Cache_Add (New 4 [WithOnEvicted]) (5 :: nat) (6 :: nat))))) \<and>
   mset (snd (Cache_Clear (fst (snd (Cache_Add (New 4 [WithOnEvicted]) (5 :: nat) (6 :: nat)))))) = {#(5, 6)#} \<and>
   mset (snd (TwoQ_Clear (fst (TwoQ_Add (fst (TwoQ_Add (fst (TwoQ_Add
        (the (New2QParams 2 (1 / 4) (1 / 2) [WithOnEvicted])) 1 10)) 2 20)) 3 30)))) =
     {#(3 :: nat, 30 :: nat), (2, 20), (1, 0)#} \<and>
   mset (snd (ARC_Clear (arc_run (NewARC 1 [WithOnEvicted]) [ArcAdd 1 10, ArcAdd 2 20]))) =
     {#(2 :: nat, 20 :: nat), (1, 0)#}"
proof -
  have w: "fst (snd (Cache_Add (New 4 [WithOnEvicted]) 5 6)) =
      \<lparr>lru = \<lparr>unsafeCache.maxEntries = 4, onEvicted = True, async = False, entries = [(5 :: nat, 6 :: nat)]\<rparr>\<rparr>"
    by code_simp
  show ?thesis
    using Clear_invokes_callback_per_entry[of
        "fst (snd (Add (NewUnsafeLru 4 [WithOnEvicted]) 5 6)) :: (nat, nat) unsafeCache"
        "fst (snd (Cache_Add (New 4 [WithOnEvicted]) 5 6))"
        "fst (TwoQ_Add (fst (TwoQ_Add (fst (TwoQ_Add (the (New2QParams 2 (1 / 4) (1 / 2) [WithOnEvicted])) 1 10)) 2 20)) 3 30)"
        "arc_run (NewARC 1 [WithOnEvicted]) [ArcAdd 1 10, ArcAdd 2 20]"]
    unfolding base_one_add w TwoQ_three_adds ARC_two_adds
    by simp
qed

text \<open>
  Claim C3 as stated has one invocation for each entry counted by \<open>Len()\<close>. A two-queue
  cache of capacity 2 that received \<open>Add(1, 10)\<close>, \<open>Add(2, 20)\<close>, \<open>Add(3, 30)\<close> has
  \<open>Len() = 2\<close> and the ghost key 1; \<open>Clear()\<close> invokes the callback three times, the
  third time with the key 1, which the cache does not contain, and the zero value.
\<close>

theorem Clear_ghost_callbacks_counterexample:
  "TwoQ_Len (fst (TwoQ_Add (fst (TwoQ_Add (fst (TwoQ_Add
        (the (New2QParams 2 (1 / 4) (1 / 2) [WithOnEvicted] :: (nat, nat) TwoQueueCache option)) 1 10)) 2 20)) 3 30)) = 2 \<and>
   snd (TwoQ_Clear (fst (TwoQ_Add (fst (TwoQ_Add (fst (TwoQ_Add
        (the (New2QParams 2 (1 / 4) (1 / 2) [WithOnEvicted] :: (nat, nat) TwoQueueCache option)) 1 10)) 2 20)) 3 30))) =
     [(3, 30), (2, 20), (1, 0)] \<and>
   \<not> TwoQ_Contains (fst (TwoQ_Add (fst (TwoQ_Add (fst (TwoQ_Add
        (the (New2QParams 2 (1 / 4) (1 / 2) [WithOnEvicted] :: (nat, nat) TwoQueueCache option)) 1 10)) 2 20)) 3 30)) 1"
  unfolding TwoQ_three_adds by code_simp

section \<open>Properties of the two-queue cache\<close>

lemma RemoveOldest_empty: "entries c = [] \<Longrightarrow> RemoveOldest c = (None, c, [])"
  by (simp add: RemoveOldest_def list_Back_def)

lemma RemoveOldest_nonempty:
  assumes "wf_cache c" "entries c \<noteq> []"
  shows "RemoveOldest c = (Some (last (entries c)), c\<lparr>entries := butlast (entries c)\<rparr>,
           if onEvicted c then [last (entries c)] else [])"
  using assms remove1_last_distinct[OF wf_cache_distinct[OF assms(1)] assms(2)]
  by (simp add: RemoveOldest_def list_Back_def removeElement_def list_Remove_def evicting_def)

lemma RemoveOldest_entries:
  assumes "wf_cache c"
  shows "fst (snd (RemoveOldest c)) = c\<lparr>entries := butlast (entries c)\<rparr>"
proof (cases "entries c = []")
  case True
  then show ?thesis by (simp add: RemoveOldest_empty)
next
  case False
  then show ?thesis by (simp add: RemoveOldest_nonempty[OF assms])
qed

lemma Add_Peek:
  assumes "1 \<le> unsafeCache.maxEntries c"
  shows "Peek (fst (snd (Add c k v))) k = Some v"
proof -
  obtain es where "entries (fst (snd (Add c k v))) = (k, v) # es"
    using Add_hd[OF assms] by blast
  then show ?thesis by (rule Peek_hd)
qed

lemma Peek_Contains: "Peek c k = Some v \<Longrightarrow> Contains c k"
  by (simp add: Peek_def Contains_def split: option.splits)

text \<open>
  Claim C8. \<open>ensureSpace(isGhostPromotion)\<close> changes nothing when
  \<open>|recent| + |frequent| < maxEntries\<close>. Otherwise, if \<open>|recent| > 0\<close> and
  (\<open>|recent| > recentTarget\<close>, or \<open>|recent| = recentTarget\<close> and not \<open>isGhostPromotion\<close>),
  the oldest entry of \<open>recent\<close> is removed and its key is added to the ghost engine with
  the zero value, \<open>frequent\<close> staying as it is (with a ghost capacity of at least 1 the
  key is then found there with value 0). Otherwise the oldest entry of \<open>frequent\<close> is
  removed (nothing, when \<open>frequent\<close> is empty) and neither \<open>recent\<close> nor the ghost
  engine changes.
\<close>

theorem TwoQ_ensureSpace_cases:
  fixes c :: "('k::zero, 'v::zero) TwoQueueCache" and isGhostPromotion :: bool
  defines "recentLen \<equiv> Len (recent c)"
  defines "freqLen \<equiv> Len (frequent c)"
  defines "fromRecent \<equiv> recentLen > 0 \<and>
     (recentLen > recentEntries c \<or> (recentLen = recentEntries c \<and> \<not> isGhostPromotion))"
  defines "c' \<equiv> fst (TwoQ_ensureSpace c isGhostPromotion)"
  assumes "wf_cache (recent c)" "wf_cache (frequent c)"
  shows "(recentLen + freqLen < TwoQueueCache.maxEntries c \<longrightarrow>
            TwoQ_ensureSpace c isGhostPromotion = (c, [])) \<and>
         (\<not> recentLen + freqLen < TwoQueueCache.maxEntries c \<and> fromRecent \<longrightarrow>
            recent c' = (recent c)\<lparr>entries := butlast (entries (recent c))\<rparr> \<and>
            recentEvict c' = fst (snd (Add (recentEvict c) (fst (last (entries (recent c)))) 0)) \<and>
            (1 \<le> unsafeCache.maxEntries (recentEvict c) \<longrightarrow>
               Peek (recentEvict c') (fst (last (entries (recent c)))) = Some 0) \<and>
            frequent c' = frequent c) \<and>
         (\<not> recentLen + freqLen < TwoQueueCache.maxEntries c \<and> \<not> fromRecent \<longrightarrow>
            frequent c' = (frequent c)\<lparr>entries := butlast (entries (frequent c))\<rparr> \<and>
            recent c' = recent c \<and> recentEvict c' = recentEvict c)"
proof (intro conjI impI)
  assume "recentLen + freqLen < TwoQueueCache.maxEntries c"
  then show "TwoQ_ensureSpace c isGhostPromotion = (c, [])"
    by (simp add: TwoQ_ensureSpace_def recentLen_def freqLen_def)
next
  assume a: "\<not> recentLen + freqLen < TwoQueueCache.maxEntries c \<and> fromRecent"
  then have ne: "entries (recent c) \<noteq> []"
    by (auto simp: fromRecent_def recentLen_def Len_def list_Len_def)
  note ro = RemoveOldest_nonempty[OF assms(5) ne]
  have e: "c' = c\<lparr>recent := (recent c)\<lparr>entries := butlast (entries (recent c))\<rparr>,
                  recentEvict := fst (snd (Add (recentEvict c) (fst (last (entries (recent c)))) 0))\<rparr>"
    using a unfolding c'_def TwoQ_ensureSpace_def Let_def
    by (simp add: ro split_beta fromRecent_def recentLen_def freqLen_def)
  show "recent c' = (recent c)\<lparr>entries := butlast (entries (recent c))\<rparr>" by (simp add: e)
  show "recentEvict c' = fst (snd (Add (recentEvict c) (fst (last (entries (recent c)))) 0))" by (simp add: e)
  show "frequent c' = frequent c" by (simp add: e)
  assume "1 \<le> unsafeCache.maxEntries (recentEvict c)"
  then show "Peek (recentEvict c') (fst (last (entries (recent c)))) = Some 0"
    by (simp add: e Add_Peek)
next
  assume a: "\<not> recentLen + freqLen < TwoQueueCache.maxEntries c \<and> \<not> fromRecent"
  have h1: "\<not> Len (recent c) + Len (frequent c) < TwoQueueCache.maxEntries c"
    using a by (simp add: recentLen_def freqLen_def)
  have h2: "\<not> (Len (recent c) > 0 \<and>
     (Len (recent c) > recentEntries c \<or> (Len (recent c) = recentEntries c \<and> \<not> isGhostPromotion)))"
    using a by (simp add: fromRecent_def recentLen_def)
  have "TwoQ_ensureSpace c isGhostPromotion =
      (case RemoveOldest (frequent c) of (r, f, calls) \<Rightarrow> (c\<lparr>frequent := f\<rparr>, calls))"
    by (simp only: TwoQ_ensureSpace_def Let_def h1 h2 if_False)
  then have e: "c' = c\<lparr>frequent := (frequent c)\<lparr>entries := butlast (entries (frequent c))\<rparr>\<rparr>"
    unfolding c'_def using RemoveOldest_entries[OF assms(6)] by (simp add: split_beta)
  show "frequent c' = (frequent c)\<lparr>entries := butlast (entries (frequent c))\<rparr>" by (simp add: e)
  show "recent c' = recent c" by (simp add: e)
  show "recentEvict c' = recentEvict c" by (simp add: e)
qed

text \<open>Three reachable states, one for each case, evaluated.\<close>

lemma TwoQ_fresh:
  "the (New2QParams 2 (1 / 4) (1 / 2) []) =
    \<lparr>TwoQueueCache.maxEntries = 2, recentEntries = 0,
      recent = \<lparr>unsafeCache.maxEntries = 2, onEvicted = False, async = False, entries = []\<rparr>,
      frequent = \<lparr>unsafeCache.maxEntries = 2, onEvicted = False, async = False, entries = []\<rparr>,
      recentEvict = \<lparr>unsafeCache.maxEntries = 1, onEvicted = False, async = False,
                      entries = ([] :: (nat \<times> nat) list)\<rparr>\<rparr>"
  by code_simp

lemma TwoQ_recent_full:
  "fst (TwoQ_Add (fst (TwoQ_Add (the (New2QParams 2 (1 / 4) (1 / 2) [])) 3 10)) 2 20) =
    \<lparr>TwoQueueCache.maxEntries = 2, recentEntries = 0,
      recent = \<lparr>unsafeCache.maxEntries = 2, onEvicted = False, async = False,
                 entries = [(2 :: nat, 20 :: nat), (3, 10)]\<rparr>,
      frequent = \<lparr>unsafeCache.maxEntries = 2, onEvicted = False, async = False, entries = []\<rparr>,
      recentEvict = \<lparr>unsafeCache.maxEntries = 1, onEvicted = False, async = False, entries = []\<rparr>\<rparr>"
  by code_simp

lemma TwoQ_frequent_full:
  "fst (TwoQ_Add (fst (TwoQ_Add (fst (TwoQ_Add (fst (TwoQ_Add
       (the (New2QParams 2 (1 / 4) (1 / 2) [])) 3 10)) 3 11)) 2 20)) 2 21) =
    \<lparr>TwoQueueCache.maxEntries = 2, recentEntries = 0,
      recent = \<lparr>unsafeCache.maxEntries = 2, onEvicted = False, async = False, entries = []\<rparr>,
      frequent = \<lparr>unsafeCache.maxEntries = 2, onEvicted = False, async = False,
                   entries = [(2 :: nat, 21 :: nat), (3, 11)]\<rparr>,
      recentEvict = \<lparr>unsafeCache.maxEntries = 1, onEvicted = False, async = False, entries = []\<rparr>\<rparr>"
  by code_simp

theorem TwoQ_ensureSpace_cases_witness:
  "TwoQ_ensureSpace (the (New2QParams 2 (1 / 4) (1 / 2) []) :: (nat, nat) TwoQueueCache) False =
     (the (New2QParams 2 (1 / 4) (1 / 2) []), []) \<and>
   Keys (recent (fst (TwoQ_ensureSpace
     (fst (TwoQ_Add (fst (TwoQ_Add (the (New2QParams 2 (1 / 4) (1 / 2) [])) (3 :: nat) (10 :: nat))) 2 20)) False))) = [2] \<and>
   Peek (recentEvict (fst (TwoQ_ensureSpace
     (fst (TwoQ_Add (fst (TwoQ_Add (the (New2QParams 2 (1 / 4) (1 / 2) [])) (3 :: nat) (10 :: nat))) 2 20)) False))) 3 = Some 0 \<and>
   Keys (frequent (fst (TwoQ_ensureSpace
     (fst (TwoQ_Add (fst (TwoQ_Add (fst (TwoQ_Add (fst (TwoQ_Add
       (the (New2QParams 2 (1 / 4) (1 / 2) [])) (3 :: nat) (10 :: nat))) 3 11)) 2 20)) 2 21)) False))) = [2]"
proof -
  have a: "TwoQ_ensureSpace (the (New2QParams 2 (1 / 4) (1 / 2) []) :: (nat, nat) TwoQueueCache) False =
     (the (New2QParams 2 (1 / 4) (1 / 2) []), [])"
    using TwoQ_ensureSpace_cases[of "the (New2QParams 2 (1 / 4) (1 / 2) []) :: (nat, nat) TwoQueueCache" False]
    unfolding TwoQ_fresh by (simp add: wf_cache_def Len_def list_Len_def)
  let ?r = "fst (TwoQ_Add (fst (TwoQ_Add (the (New2QParams 2 (1 / 4) (1 / 2) [])) (3 :: nat) (10 :: nat))) 2 20)"
  have wr: "wf_cache (recent ?r)" "wf_cache (frequent ?r)"
    unfolding TwoQ_recent_full by (simp_all add: wf_cache_def)
  have fr: "\<not> Len (recent ?r) + Len (frequent ?r) < TwoQueueCache.maxEntries ?r \<and>
            0 < Len (recent ?r) \<and> recentEntries ?r < Len (recent ?r) \<and>
            1 \<le> unsafeCache.maxEntries (recentEvict ?r)"
    unfolding TwoQ_recent_full by (simp add: Len_def list_Len_def)
  have er: "entries (recent ?r) = [(2, 20), (3, 10)]"
    unfolding TwoQ_recent_full by simp
  have b1: "recent (fst (TwoQ_ensureSpace ?r False)) = (recent ?r)\<lparr>entries := butlast (entries (recent ?r))\<rparr>"
    and b2: "Peek (recentEvict (fst (TwoQ_ensureSpace ?r False))) (fst (last (entries (recent ?r)))) = Some 0"
    using TwoQ_ensureSpace_cases[OF wr, of False] fr by blast+
  have b: "Keys (recent (fst (TwoQ_ensureSpace ?r False))) = [2] \<and>
           Peek (recentEvict (fst (TwoQ_ensureSpace ?r False))) 3 = Some 0"
    using b2 unfolding b1 er by (simp add: Keys_def)
  let ?f = "fst (TwoQ_Add (fst (TwoQ_Add (fst (TwoQ_Add (fst (TwoQ_Add
       (the (New2QParams 2 (1 / 4) (1 / 2) [])) (3 :: nat) (10 :: nat))) 3 11)) 2 20)) 2 21)"
  have wf: "wf_cache (recent ?f)" "wf_cache (frequent ?f)"
    unfolding TwoQ_frequent_full by (simp_all add: wf_cache_def)
  have ff: "\<not> Len (recent ?f) + Len (frequent ?f) < TwoQueueCache.maxEntries ?f \<and>
            \<not> 0 < Len (recent ?f)"
    unfolding TwoQ_frequent_full by (simp add: Len_def list_Len_def)
  have ef: "entries (frequent ?f) = [(2, 21), (3, 11)]"
    unfolding TwoQ_frequent_full by simp
  have c1: "frequent (fst (TwoQ_ensureSpace ?f False)) = (frequent ?f)\<lparr>entries := butlast (entries (frequent ?f))\<rparr>"
    using TwoQ_ensureSpace_cases[OF wf, of False] ff by blast
  have c: "Keys (frequent (fst (TwoQ_ensureSpace ?f False))) = [2]"
    unfolding c1 ef by (simp add: Keys_def)
  from a b c show ?thesis by simp
qed

section \<open>Promotion and the eviction callback\<close>

lemma Peek_bucket: "Peek c k = Some v \<Longrightarrow> bucket c k = Some (k, v)"
proof -
  assume a: "Peek c k = Some v"
  then obtain e where e: "bucket c k = Some e" "snd e = v"
    by (auto simp: Peek_def split: option.splits)
  with bucket_SomeD[OF e(1)] have "e = (k, v)" by (cases e) simp
  with e show ?thesis by simp
qed

lemma Contains_bucket: "Contains c k \<longleftrightarrow> bucket c k \<noteq> None"
  by (cases "bucket c k") (simp_all add: Contains_def)

lemma Remove_present:
  assumes "bucket c k = Some e"
  shows "Remove c k = (True, c\<lparr>entries := remove1 e (entries c)\<rparr>, if onEvicted c then [e] else [])"
  using assms by (cases e) (simp add: Remove_def removeElement_def list_Remove_def evicting_def)

lemma Get_absent: "\<not> Contains c k \<Longrightarrow> Get c k = (None, c)"
  by (cases "bucket c k") (simp_all add: Get_def Contains_def)

lemma Add_Contains: "1 \<le> unsafeCache.maxEntries c \<Longrightarrow> Contains (fst (snd (Add c k v))) k"
  using Add_Peek Peek_Contains by fast

lemma TwoQ_Get_promotes:
  assumes "\<not> Contains (frequent q) k" "Peek (recent q) k = Some v"
  shows "TwoQ_Get q k =
          (Some v,
           q\<lparr>recent := (recent q)\<lparr>entries := remove1 (k, v) (entries (recent q))\<rparr>,
             frequent := fst (snd (Add (frequent q) k v))\<rparr>,
           (if onEvicted (recent q) then [(k, v)] else []) @ snd (snd (Add (frequent q) k v)))"
  using assms
  by (simp add: TwoQ_Get_def Get_absent Remove_present[OF Peek_bucket[OF assms(2)]] split_beta)

lemma TwoQ_Add_promotes:
  assumes "\<not> Contains (frequent q) k" "Peek (recent q) k = Some v"
  shows "TwoQ_Add q k v' =
          (q\<lparr>recent := (recent q)\<lparr>entries := remove1 (k, v) (entries (recent q))\<rparr>,
             frequent := fst (snd (Add (frequent q) k v'))\<rparr>,
           (if onEvicted (recent q) then [(k, v)] else []) @ snd (snd (Add (frequent q) k v')))"
  using assms Peek_Contains[OF assms(2)]
  by (simp add: TwoQ_Add_def Remove_present[OF Peek_bucket[OF assms(2)]] split_beta)

lemma ARC_Get_promotes:
  assumes "Peek (t1 a) k = Some v"
  shows "ARC_Get a k =
          (Some v,
           a\<lparr>t1 := (t1 a)\<lparr>entries := remove1 (k, v) (entries (t1 a))\<rparr>,
             t2 := fst (snd (Add (t2 a) k v))\<rparr>,
           (if onEvicted (t1 a) then [(k, v)] else []) @ snd (snd (Add (t2 a) k v)))"
  using assms
  by (simp add: ARC_Get_def Remove_present[OF Peek_bucket[OF assms]] split_beta)

lemma ARC_Add_promotes:
  assumes "Peek (t1 a) k = Some v"
  shows "ARC_Add a k v' =
          (a\<lparr>t1 := (t1 a)\<lparr>entries := remove1 (k, v) (entries (t1 a))\<rparr>,
             t2 := fst (snd (Add (t2 a) k v'))\<rparr>,
           (if onEvicted (t1 a) then [(k, v)] else []) @ snd (snd (Add (t2 a) k v')))"
  using assms Peek_Contains[OF assms]
  by (simp add: ARC_Add_def Remove_present[OF Peek_bucket[OF assms]] split_beta)

text \<open>
  Claim C10. With the callback set, promoting a key from the recency arm to the
  frequency arm invokes the callback with the key and the value stored for it, and the
  key is still in the cache afterwards. In the two-queue cache this is a \<open>Get\<close> or an
  \<open>Add\<close> of a key that is in \<open>recent\<close> and not in \<open>frequent\<close>; in the adaptive replacement
  cache an \<open>Add\<close> or a \<open>Get\<close> of a key in \<open>t1\<close>. The call for the promoted key is the
  first of the operation; the calls after it are those of the insertion into the
  frequency arm. The frequency arm has the capacity the constructors give it, at least 1.
\<close>

theorem promotion_invokes_callback:
  fixes q :: "('k::zero, 'v::zero) TwoQueueCache" and a :: "('k, 'v) ARCCache"
  shows "(onEvicted (recent q) \<and> 1 \<le> unsafeCache.maxEntries (frequent q) \<and>
          \<not> Contains (frequent q) k \<and> Peek (recent q) k = Some v \<longrightarrow>
            fst (TwoQ_Get q k) = Some v \<and>
            snd (snd (TwoQ_Get q k)) = (k, v) # snd (snd (Add (frequent q) k v)) \<and>
            TwoQ_Contains (fst (snd (TwoQ_Get q k))) k \<and>
            snd (TwoQ_Add q k v') = (k, v) # snd (snd (Add (frequent q) k v')) \<and>
            TwoQ_Contains (fst (TwoQ_Add q k v')) k \<and>
            TwoQ_Peek (fst (TwoQ_Add q k v')) k = Some v') \<and>
         (onEvicted (t1 a) \<and> 1 \<le> unsafeCache.maxEntries (t2 a) \<and> Peek (t1 a) k = Some v \<longrightarrow>
            fst (ARC_Get a k) = Some v \<and>
            snd (snd (ARC_Get a k)) = (k, v) # snd (snd (Add (t2 a) k v)) \<and>
            ARC_Contains (fst (snd (ARC_Get a k))) k \<and>
            snd (ARC_Add a k v') = (k, v) # snd (snd (Add (t2 a) k v')) \<and>
            ARC_Contains (fst (ARC_Add a k v')) k)"
proof (intro conjI impI)
  assume h: "onEvicted (recent q) \<and> 1 \<le> unsafeCache.maxEntries (frequent q) \<and>
          \<not> Contains (frequent q) k \<and> Peek (recent q) k = Some v"
  then have nf: "\<not> Contains (frequent q) k" and pk: "Peek (recent q) k = Some v"
    and cap: "1 \<le> unsafeCache.maxEntries (frequent q)" and cb: "onEvicted (recent q)" by simp_all
  note g = TwoQ_Get_promotes[OF nf pk] and ad = TwoQ_Add_promotes[OF nf pk, of v']
  show "fst (TwoQ_Get q k) = Some v" by (simp add: g)
  show "snd (snd (TwoQ_Get q k)) = (k, v) # snd (snd (Add (frequent q) k v))" by (simp add: g cb)
  show "TwoQ_Contains (fst (snd (TwoQ_Get q k))) k" by (simp add: g TwoQ_Contains_def Add_Contains[OF cap])
  show "snd (TwoQ_Add q k v') = (k, v) # snd (snd (Add (frequent q) k v'))" by (simp add: ad cb)
  show "TwoQ_Contains (fst (TwoQ_Add q k v')) k" by (simp add: ad TwoQ_Contains_def Add_Contains[OF cap])
  show "TwoQ_Peek (fst (TwoQ_Add q k v')) k = Some v'" by (simp add: ad TwoQ_Peek_def Add_Peek[OF cap])
next
  assume h: "onEvicted (t1 a) \<and> 1 \<le> unsafeCache.maxEntries (t2 a) \<and> Peek (t1 a) k = Some v"
  then have pk: "Peek (t1 a) k = Some v"
    and cap: "1 \<le> unsafeCache.maxEntries (t2 a)" and cb: "onEvicted (t1 a)" by simp_all
  note g = ARC_Get_promotes[OF pk] and ad = ARC_Add_promotes[OF pk, of v']
  show "fst (ARC_Get a k) = Some v" by (simp add: g)
  show "snd (snd (ARC_Get a k)) = (k, v) # snd (snd (Add (t2 a) k v))" by (simp add: g cb)
  show "ARC_Contains (fst (snd (ARC_Get a k))) k" by (simp add: g ARC_Contains_def Add_Contains[OF cap])
  show "snd (ARC_Add a k v') = (k, v) # snd (snd (Add (t2 a) k v'))" by (simp add: ad cb)
  show "ARC_Contains (fst (ARC_Add a k v')) k" by (simp add: ad ARC_Contains_def Add_Contains[OF cap])
qed

lemma TwoQ_one_add:
  "fst (TwoQ_Add (the (New2QParams 2 (1 / 4) (1 / 2) [WithOnEvicted])) 3 10) =
    \<lparr>TwoQueueCache.maxEntries = 2, recentEntries = 0,
      recent = \<lparr>unsafeCache.maxEntries = 2, onEvicted = True, async = False, entries = [(3 :: nat, 10 :: nat)]\<rparr>,
      frequent = \<lparr>unsafeCache.maxEntries = 2, onEvicted = True, async = False, entries = []\<rparr>,
      recentEvict = \<lparr>unsafeCache.maxEntries = 1, onEvicted = True, async = False, entries = []\<rparr>\<rparr>"
  by code_simp

lemma ARC_one_add:
  "arc_run (NewARC 2 [WithOnEvicted]) [ArcAdd 3 10] =
    \<lparr>ARCCache.maxEntries = 2, p = 0,
      t1 = \<lparr>unsafeCache.maxEntries = 2, onEvicted = True, async = False, entries = [(3 :: nat, 10 :: nat)]\<rparr>,
      b1 = \<lparr>unsafeCache.maxEntries = 2, onEvicted = True, async = False, entries = []\<rparr>,
      t2 = \<lparr>unsafeCache.maxEntries = 2, onEvicted = True, async = False, entries = []\<rparr>,
      b2 = \<lparr>unsafeCache.maxEntries = 2, onEvicted = True, async = False, entries = []\<rparr>\<rparr>"
  by code_simp

theorem promotion_invokes_callback_witness:
  "snd (snd (TwoQ_Get (fst (TwoQ_Add (the (New2QParams 2 (1 / 4) (1 / 2) [WithOnEvicted]) :: (nat, nat) TwoQueueCache) 3 10)) (3 :: nat))) =
     [(3, 10 :: nat)] \<and>
   TwoQ_Contains (fst (snd (TwoQ_Get (fst (TwoQ_Add (the (New2QParams 2 (1 / 4) (1 / 2) [WithOnEvicted]) :: (nat, nat) TwoQueueCache) 3 10))
     (3 :: nat)))) 3 \<and>
   snd (TwoQ_Add (fst (TwoQ_Add (the (New2QParams 2 (1 / 4) (1 / 2) [WithOnEvicted]) :: (nat, nat) TwoQueueCache) 3 10)) (3 :: nat) (11 :: nat)) =
     [(3, 10)] \<and>
   snd (snd (ARC_Get (arc_run (NewARC 2 [WithOnEvicted] :: (nat, nat) ARCCache) [ArcAdd 3 10]) (3 :: nat))) = [(3, 10 :: nat)] \<and>
   ARC_Contains (fst (snd (ARC_Get (arc_run (NewARC 2 [WithOnEvicted] :: (nat, nat) ARCCache) [ArcAdd 3 (10 :: nat)]) (3 :: nat)))) 3 \<and>
   snd (ARC_Add (arc_run (NewARC 2 [WithOnEvicted] :: (nat, nat) ARCCache) [ArcAdd 3 10]) (3 :: nat) (11 :: nat)) = [(3, 10)]"
proof -
  let ?q = "fst (TwoQ_Add (the (New2QParams 2 (1 / 4) (1 / 2) [WithOnEvicted])) 3 10) :: (nat, nat) TwoQueueCache"
  let ?a = "arc_run (NewARC 2 [WithOnEvicted]) [ArcAdd 3 10] :: (nat, nat) ARCCache"
  have hq: "onEvicted (recent ?q) \<and> 1 \<le> unsafeCache.maxEntries (frequent ?q) \<and>
            \<not> Contains (frequent ?q) 3 \<and> Peek (recent ?q) 3 = Some 10"
    unfolding TwoQ_one_add by (simp add: Contains_def Peek_def bucket_def)
  have ha: "onEvicted (t1 ?a) \<and> 1 \<le> unsafeCache.maxEntries (t2 ?a) \<and> Peek (t1 ?a) 3 = Some 10"
    unfolding ARC_one_add by (simp add: Peek_def bucket_def)
  have fq: "snd (snd (Add (frequent ?q) 3 v)) = []" for v
    unfolding TwoQ_one_add by (simp add: Add_def bucket_def list_PushFront_def list_Len_def)
  have fa: "snd (snd (Add (t2 ?a) 3 v)) = []" for v
    unfolding ARC_one_add by (simp add: Add_def bucket_def list_PushFront_def list_Len_def)
  show ?thesis
    using promotion_invokes_callback[of ?q 3 10 11 ?a] hq ha by (simp add: fq fa)
qed

section \<open>A ghost hit in \<open>b1\<close>\<close>

lemma Contains_keys: "Contains c k \<longleftrightarrow> k \<in> fst ` set (entries c)"
  by (simp add: Contains_bucket bucket_None_iff)

lemma Contains_Len_pos: "Contains c k \<Longrightarrow> 1 \<le> Len c"
  by (cases "entries c") (auto simp: Contains_keys Len_def list_Len_def)

lemma Remove_not_Contains:
  assumes "wf_cache c"
  shows "\<not> Contains (fst (snd (Remove c k))) k"
proof (cases "bucket c k")
  case None
  then show ?thesis by (simp add: Remove_def Contains_bucket)
next
  case (Some e)
  have e: "e \<in> set (entries c)" "fst e = k" using bucket_SomeD[OF Some] by auto
  have "k \<notin> fst ` set (remove1 e (entries c))"
    using key_notin_remove1[of "entries c" e] assms e by (simp add: wf_cache_def)
  then show ?thesis by (simp add: Remove_present[OF Some] Contains_keys)
qed

lemma RemoveOldest_cases:
  "RemoveOldest c = (None, c, []) \<or>
   (\<exists>ent calls. RemoveOldest c = (Some ent, c\<lparr>entries := remove1 ent (entries c)\<rparr>, calls))"
  by (cases "entries c = []")
     (simp_all add: RemoveOldest_def list_Back_def removeElement_def list_Remove_def Let_def)

lemma Contains_remove1:
  "\<not> Contains c k \<Longrightarrow> \<not> Contains (c\<lparr>entries := remove1 e (entries c)\<rparr>) k"
  using keys_remove1_subset[of e "entries c"] by (auto simp: Contains_keys)

lemma ARC_replace_t1:
  assumes "Len (t1 c) > 0 \<and> (Len (t1 c) > p c \<or> (Len (t1 c) = p c \<and> b))"
  shows "ARC_replace c b =
     (case RemoveOldest (t1 c) of
        (Some ent, t, calls1) \<Rightarrow>
          (case Add (b1 c) (fst ent) 0 of (ev, b, calls2) \<Rightarrow>
             (c\<lparr>t1 := t, b1 := b\<rparr>, calls1 @ calls2))
      | (None, t, calls1) \<Rightarrow> (c\<lparr>t1 := t\<rparr>, calls1))"
  by (simp only: ARC_replace_def Let_def assms if_True simp_thms)

lemma ARC_replace_t2:
  assumes "\<not> (Len (t1 c) > 0 \<and> (Len (t1 c) > p c \<or> (Len (t1 c) = p c \<and> b)))"
  shows "ARC_replace c b =
     (case RemoveOldest (t2 c) of
        (Some ent, t, calls1) \<Rightarrow>
          (case Add (b2 c) (fst ent) 0 of (ev, b, calls2) \<Rightarrow>
             (c\<lparr>t2 := t, b2 := b\<rparr>, calls1 @ calls2))
      | (None, t, calls1) \<Rightarrow> (c\<lparr>t2 := t\<rparr>, calls1))"
  by (simp only: ARC_replace_def Let_def assms if_False)

lemma ARC_replace_frame:
  fixes c :: "('k, 'v::zero) ARCCache"
  shows "p (fst (ARC_replace c b)) = p c \<and>
         ARCCache.maxEntries (fst (ARC_replace c b)) = ARCCache.maxEntries c \<and>
         (\<not> Contains (t1 c) k \<longrightarrow> \<not> Contains (t1 (fst (ARC_replace c b))) k) \<and>
         unsafeCache.maxEntries (t2 (fst (ARC_replace c b))) = unsafeCache.maxEntries (t2 c) \<and>
         (wf_cache (b1 c) \<longrightarrow> wf_cache (b1 (fst (ARC_replace c b))))"
proof (cases "Len (t1 c) > 0 \<and> (Len (t1 c) > p c \<or> (Len (t1 c) = p c \<and> b))")
  case True
  note e = ARC_replace_t1[OF True]
  from RemoveOldest_cases[of "t1 c"] show ?thesis
  proof (elim disjE exE)
    assume r: "RemoveOldest (t1 c) = (None, t1 c, [])"
    show ?thesis unfolding e r by simp
  next
    fix ent calls
    assume r: "RemoveOldest (t1 c) = (Some ent, (t1 c)\<lparr>entries := remove1 ent (entries (t1 c))\<rparr>, calls)"
    show ?thesis
      unfolding e r
      using Contains_remove1[of "t1 c" k ent] wf_cache_Add[of "b1 c" "fst ent" 0]
      by (simp add: split_beta)
  qed
next
  case False
  note e = ARC_replace_t2[OF False]
  from RemoveOldest_cases[of "t2 c"] show ?thesis
  proof (elim disjE exE)
    assume r: "RemoveOldest (t2 c) = (None, t2 c, [])"
    show ?thesis unfolding e r by simp
  next
    fix ent calls
    assume r: "RemoveOldest (t2 c) = (Some ent, (t2 c)\<lparr>entries := remove1 ent (entries (t2 c))\<rparr>, calls)"
    show ?thesis
      unfolding e r by (simp add: split_beta)
  qed
qed


lemma ghost_delta:
  fixes x y :: int
  assumes "1 \<le> x" "0 \<le> y"
  shows "(if y > x then y div x else 1) = max 1 (y div x)"
proof (cases "y > x")
  case True
  then have "x div x \<le> y div x" using assms by (intro zdiv_mono1) simp_all
  then have "1 \<le> y div x" using assms by simp
  with True show ?thesis by simp
next
  case False
  then have "y div x \<le> x div x" using assms by (intro zdiv_mono1) simp_all
  then have "y div x \<le> 1" using assms by simp
  with False show ?thesis by simp
qed

lemma ARC_Add_b1_hit:
  fixes c :: "('k, 'v::zero) ARCCache"
  assumes "\<not> Contains (t1 c) k" "\<not> Contains (t2 c) k" "Contains (b1 c) k"
  defines "c1 \<equiv> c\<lparr>p := min (p c + max 1 (Len (b2 c) div Len (b1 c))) (ARCCache.maxEntries c)\<rparr>"
  defines "c2 \<equiv> (if Len (t1 c) + Len (t2 c) \<ge> ARCCache.maxEntries c then fst (ARC_replace c1 False) else c1)"
  shows "fst (ARC_Add c k v) =
           c2\<lparr>b1 := fst (snd (Remove (b1 c2) k)), t2 := fst (snd (Add (t2 c2) k v))\<rparr>"
proof -
  have l1: "1 \<le> Len (b1 c)" using assms(3) by (rule Contains_Len_pos)
  have l2: "0 \<le> Len (b2 c)" by (simp add: Len_def list_Len_def)
  note d = ghost_delta[OF l1 l2]
  have pe: "(if p c + max 1 (Len (b2 c) div Len (b1 c)) \<ge> ARCCache.maxEntries c
             then c\<lparr>p := ARCCache.maxEntries c\<rparr>
             else c\<lparr>p := p c + max 1 (Len (b2 c) div Len (b1 c))\<rparr>) = c1"
    by (simp add: c1_def min_def)
  have f: "t1 c1 = t1 c" "t2 c1 = t2 c" "ARCCache.maxEntries c1 = ARCCache.maxEntries c"
    by (simp_all add: c1_def)
  show ?thesis
  proof (cases "Len (t1 c) + Len (t2 c) \<ge> ARCCache.maxEntries c")
    case True
    then have c2: "c2 = fst (ARC_replace c1 False)" by (simp add: c2_def)
    show ?thesis
      using assms(1-3) True unfolding ARC_Add_def Let_def d pe c2
      by (simp add: split_beta f)
  next
    case False
    then have c2: "c2 = c1" by (simp add: c2_def)
    show ?thesis
      using assms(1-3) False unfolding ARC_Add_def Let_def d pe c2
      by (simp add: split_beta f)
  qed
qed

text \<open>
  Claim C7. Let the key be absent from \<open>t1\<close> and \<open>t2\<close> and present in \<open>b1\<close>. Then \<open>Add\<close>
  raises \<open>p\<close> by \<open>delta = max(1, |b2| div |b1|)\<close>, but not above \<open>maxEntries\<close>; it calls
  \<open>replace(false)\<close> on the cache with the new \<open>p\<close> exactly when \<open>|t1| + |t2| \<ge> maxEntries\<close>;
  it removes the key from \<open>b1\<close> and adds the entry to \<open>t2\<close>. Afterwards the key is not in
  \<open>b1\<close>, not in \<open>t1\<close>, and in \<open>t2\<close> with the new value; and \<open>p\<close> has grown by at least 1 if it
  was below \<open>maxEntries\<close>. The engines are as the constructor and the operations leave
  them: the keys of \<open>b1\<close> are distinct and \<open>t2\<close> has a capacity of at least 1.
\<close>

theorem ARC_Add_ghost_hit_in_b1:
  fixes c :: "('k, 'v::zero) ARCCache" and k :: 'k and v :: 'v
  defines "delta \<equiv> max 1 (Len (b2 c) div Len (b1 c))"
  defines "c1 \<equiv> c\<lparr>p := min (p c + delta) (ARCCache.maxEntries c)\<rparr>"
  defines "c2 \<equiv> (if Len (t1 c) + Len (t2 c) \<ge> ARCCache.maxEntries c then fst (ARC_replace c1 False) else c1)"
  defines "c' \<equiv> fst (ARC_Add c k v)"
  assumes "\<not> Contains (t1 c) k" "\<not> Contains (t2 c) k" "Contains (b1 c) k"
  assumes "wf_cache (b1 c)" "1 \<le> unsafeCache.maxEntries (t2 c)"
  shows "p c' = min (p c + delta) (ARCCache.maxEntries c) \<and>
         c' = c2\<lparr>b1 := fst (snd (Remove (b1 c2) k)), t2 := fst (snd (Add (t2 c2) k v))\<rparr> \<and>
         \<not> Contains (b1 c') k \<and>
         Contains (t2 c') k \<and> Peek (t2 c') k = Some v \<and>
         \<not> Contains (t1 c') k \<and>
         (p c < ARCCache.maxEntries c \<longrightarrow> p c + 1 \<le> p c')"
proof -
  have e: "c' = c2\<lparr>b1 := fst (snd (Remove (b1 c2) k)), t2 := fst (snd (Add (t2 c2) k v))\<rparr>"
    unfolding c'_def c2_def c1_def delta_def using assms(5-7) by (rule ARC_Add_b1_hit)
  have f1: "p c1 = min (p c + delta) (ARCCache.maxEntries c)" "t1 c1 = t1 c" "t2 c1 = t2 c" "b1 c1 = b1 c"
    by (simp_all add: c1_def)
  note fr = ARC_replace_frame[of c1 False k]
  have p2: "p c2 = min (p c + delta) (ARCCache.maxEntries c)"
    using fr f1 by (simp add: c2_def)
  have t1': "\<not> Contains (t1 c2) k"
    using fr f1 assms(5) by (simp add: c2_def)
  have cap: "1 \<le> unsafeCache.maxEntries (t2 c2)"
    using fr f1 assms(9) by (simp add: c2_def)
  have wf: "wf_cache (b1 c2)"
    using fr f1 assms(8) by (simp add: c2_def)
  have d1: "1 \<le> delta" by (simp add: delta_def)
  show ?thesis
    using e p2 t1' d1 Remove_not_Contains[OF wf, of k] Add_Contains[OF cap, of k v] Add_Peek[OF cap, of k v]
    by (simp add: min_def)
qed

lemma ARC_three_adds:
  "arc_run (NewARC 2 []) [ArcAdd 3 30, ArcAdd 4 40, ArcAdd 5 50] =
    \<lparr>ARCCache.maxEntries = 2, p = 0,
      t1 = \<lparr>unsafeCache.maxEntries = 2, onEvicted = False, async = False,
             entries = [(5 :: nat, 50 :: nat), (4, 40)]\<rparr>,
      b1 = \<lparr>unsafeCache.maxEntries = 2, onEvicted = False, async = False, entries = [(3, 0)]\<rparr>,
      t2 = \<lparr>unsafeCache.maxEntries = 2, onEvicted = False, async = False, entries = []\<rparr>,
      b2 = \<lparr>unsafeCache.maxEntries = 2, onEvicted = False, async = False, entries = []\<rparr>\<rparr>"
  by code_simp

theorem ARC_Add_ghost_hit_in_b1_witness:
  "p (arc_run (NewARC 2 [] :: (nat, nat) ARCCache) [ArcAdd 3 30, ArcAdd 4 40, ArcAdd 5 50]) = 0 \<and>
   p (fst (ARC_Add (arc_run (NewARC 2 [] :: (nat, nat) ARCCache) [ArcAdd 3 30, ArcAdd 4 40, ArcAdd 5 50]) 3 31)) = 1 \<and>
   Peek (t2 (fst (ARC_Add (arc_run (NewARC 2 [] :: (nat, nat) ARCCache) [ArcAdd 3 30, ArcAdd 4 40, ArcAdd 5 50]) 3 31))) 3
     = Some 31 \<and>
   \<not> Contains (t1 (fst (ARC_Add (arc_run (NewARC 2 [] :: (nat, nat) ARCCache) [ArcAdd 3 30, ArcAdd 4 40, ArcAdd 5 50]) 3 31))) 3 \<and>
   \<not> Contains (b1 (fst (ARC_Add (arc_run (NewARC 2 [] :: (nat, nat) ARCCache) [ArcAdd 3 30, ArcAdd 4 40, ArcAdd 5 50]) 3 31))) 3"
proof -
  let ?c = "arc_run (NewARC 2 [] :: (nat, nat) ARCCache) [ArcAdd 3 30, ArcAdd 4 40, ArcAdd 5 50]"
  have h: "\<not> Contains (t1 ?c) 3" "\<not> Contains (t2 ?c) 3" "Contains (b1 ?c) 3"
    "wf_cache (b1 ?c)" "1 \<le> unsafeCache.maxEntries (t2 ?c)"
    unfolding ARC_three_adds by (simp_all add: Contains_def bucket_def wf_cache_def)
  have v: "p ?c = 0" "ARCCache.maxEntries ?c = 2" "Len (b1 ?c) = 1" "Len (b2 ?c) = 0"
    unfolding ARC_three_adds by (simp_all add: Len_def list_Len_def)
  note t = ARC_Add_ghost_hit_in_b1[OF h, of 31]
  have a: "p (fst (ARC_Add ?c 3 31)) = min (p ?c + max 1 (Len (b2 ?c) div Len (b1 ?c))) (ARCCache.maxEntries ?c)"
    using t by (rule conjunct1)
  have b: "Peek (t2 (fst (ARC_Add ?c 3 31))) 3 = Some 31"
    "\<not> Contains (t1 (fst (ARC_Add ?c 3 31))) 3" "\<not> Contains (b1 (fst (ARC_Add ?c 3 31))) 3"
    using t by blast+
  show ?thesis
    using a b by (simp add: v)
qed

end
